theory Spec2Isabelle
  imports Complex_Main "HOL-Library.AList"
begin

section \<open>Values shared by all modules\<close>

text \<open>
  The Python sources compute on \<open>float\<close>. Prices and quantities are modelled by exact
  rationals: all comparisons, sums, differences and minima are the exact ones, and
  \<open>round(x, n)\<close> is rounding to \<open>n\<close> decimal places with ties to the even neighbour.
  A \<open>UUID\<close> is modelled by its canonical string, so \<open>str(u)\<close> and \<open>uuid.UUID(s)\<close> are
  the identity. Clock readings (\<open>datetime.utcnow()\<close>) are natural numbers.
\<close>

type_synonym uuid = string
type_synonym addr = nat

datatype error = KeyError | TypeError | ValidationError

definition py_round :: "nat \<Rightarrow> rat \<Rightarrow> rat" where
  "py_round n x =
     (let y = x * 10 ^ n; f = \<lfloor>y\<rfloor>; d = y - of_int f
      in of_int (if d < 1 / 2 then f
                 else if 1 / 2 < d then f + 1
                 else if even f then f else f + 1) / 10 ^ n)"

text \<open>\<open>engine.normalize_price\<close>: \<open>round(price, 2)\<close>.\<close>

definition normalize_price :: "rat \<Rightarrow> rat" where
  "normalize_price price = py_round 2 price"

text \<open>
  \<open>models.Order\<close> (the second class statement of that name in \<open>models.py\<close>, which is the
  one in force after import). The field \<open>id\<close> is called \<open>order_id\<close> here.
\<close>

record Order =
  order_id :: uuid
  symbol :: string
  order_type :: string
  side :: string
  quantity :: rat
  price :: "rat option"
  timestamp :: nat
  trigger_price :: "rat option"
  trigger_type :: "string option"

text \<open>\<open>models.Trade\<close>: the declared fields, and no others.\<close>

record Trade =
  trade_id :: nat
  t_symbol :: string
  t_price :: rat
  t_quantity :: rat
  aggressor_side :: string
  maker_order_id :: uuid
  taker_order_id :: uuid
  t_timestamp :: nat

section \<open>stop\_orders.py\<close>

text \<open>The dictionary returned by \<open>get_bbo\<close>, read with \<open>bbo.get("bid")\<close>, \<open>bbo.get("ask")\<close>.\<close>

record BBO =
  bid :: "rat option"
  ask :: "rat option"

text \<open>Python truthiness of an optional float and of an optional string.\<close>

fun truthy_float :: "rat option \<Rightarrow> bool" where
  "truthy_float None = False"
| "truthy_float (Some x) = (x \<noteq> 0)"

fun truthy_str :: "string option \<Rightarrow> bool" where
  "truthy_str None = False"
| "truthy_str (Some s) = (s \<noteq> [])"

text \<open>\<open>bid is not None and bid <= trigger\<close>, and the three sibling tests.\<close>

fun present_le :: "rat option \<Rightarrow> rat \<Rightarrow> bool" where
  "present_le None t = False"
| "present_le (Some x) t = (x \<le> t)"

fun present_ge :: "rat option \<Rightarrow> rat \<Rightarrow> bool" where
  "present_ge None t = False"
| "present_ge (Some x) t = (t \<le> x)"

definition should_trigger :: "Order \<Rightarrow> BBO \<Rightarrow> bool" where
  "should_trigger order bbo =
     (if \<not> truthy_float (trigger_price order) \<or> \<not> truthy_str (trigger_type order) then False
      else case trigger_price order of
        None \<Rightarrow> False
      | Some trig \<Rightarrow>
         (if trigger_type order = Some ''stop_loss'' then
            (if side order = ''sell'' \<and> present_le (bid bbo) trig then True
             else if side order = ''buy'' \<and> present_ge (ask bbo) trig then True
             else False)
          else if trigger_type order = Some ''take_profit'' then
            (if side order = ''sell'' \<and> present_ge (bid bbo) trig then True
             else if side order = ''buy'' \<and> present_le (ask bbo) trig then True
             else False)
          else if trigger_type order = Some ''stop_limit'' then
            (if side order = ''buy'' \<and> present_ge (ask bbo) trig then True
             else if side order = ''sell'' \<and> present_le (bid bbo) trig then True
             else False)
          else False))"

text \<open>
  \<open>stop_orders_by_symbol\<close>, a \<open>defaultdict(list)\<close>: the pending conditional orders of each
  symbol, in order of arrival.
\<close>

type_synonym stop_orders = "string \<Rightarrow> Order list"

definition no_stop_orders :: stop_orders where
  "no_stop_orders = (\<lambda>smb. [])"

definition add_stop_order :: "Order \<Rightarrow> stop_orders \<Rightarrow> stop_orders" where
  "add_stop_order order st = st(symbol order := st (symbol order) @ [order])"

text \<open>
  The trigger table as the specification words it, for comparison with \<open>should_trigger\<close>:
  rows \<open>stop_loss\<close>, \<open>take_profit\<close>, \<open>stop_limit\<close>, columns buy and sell, an absent side of
  the BBO never satisfying a row.
\<close>

definition spec_trigger_table :: "string \<Rightarrow> string \<Rightarrow> rat \<Rightarrow> BBO \<Rightarrow> bool" where
  "spec_trigger_table ttype sd trig bbo =
     (if ttype = ''stop_loss'' \<or> ttype = ''stop_limit'' then
        (if sd = ''buy'' then (case ask bbo of None \<Rightarrow> False | Some a \<Rightarrow> trig \<le> a)
         else if sd = ''sell'' then (case bid bbo of None \<Rightarrow> False | Some b \<Rightarrow> b \<le> trig)
         else False)
      else if ttype = ''take_profit'' then
        (if sd = ''buy'' then (case ask bbo of None \<Rightarrow> False | Some a \<Rightarrow> a \<le> trig)
         else if sd = ''sell'' then (case bid bbo of None \<Rightarrow> False | Some b \<Rightarrow> trig \<le> b)
         else False)
      else False)"

section \<open>trade\_log.py\<close>

text \<open>Keyword arguments of a pydantic constructor call, and the values they carry.\<close>

datatype pyval = PStr string | PFloat rat | PUUID uuid | PInt nat

text \<open>
  \<open>Trade(**kwargs)\<close>: pydantic reads the declared fields from the keyword arguments,
  fills \<open>trade_id\<close> and \<open>timestamp\<close> from their default factories when they are not
  given, and ignores every keyword that is not a declared field (the class sets no
  \<open>Config\<close>, so \<open>extra\<close> has its default, ignore). A missing required field is a
  validation error.
\<close>

definition Trade_init :: "nat \<Rightarrow> nat \<Rightarrow> (string \<times> pyval) list \<Rightarrow> error + Trade" where
  "Trade_init fresh now kwargs =
     (case (map_of kwargs ''symbol'', map_of kwargs ''price'', map_of kwargs ''quantity'',
            map_of kwargs ''aggressor_side'', map_of kwargs ''maker_order_id'',
            map_of kwargs ''taker_order_id'') of
        (Some (PStr s), Some (PFloat p), Some (PFloat q), Some (PStr a), Some (PUUID m),
         Some (PUUID t)) \<Rightarrow>
          Inr \<lparr>trade_id = (case map_of kwargs ''trade_id'' of Some (PInt i) \<Rightarrow> i | _ \<Rightarrow> fresh),
               t_symbol = s, t_price = p, t_quantity = q, aggressor_side = a,
               maker_order_id = m, taker_order_id = t,
               t_timestamp = (case map_of kwargs ''timestamp'' of Some (PInt i) \<Rightarrow> i | _ \<Rightarrow> now)\<rparr>
      | _ \<Rightarrow> Inl ValidationError)"

text \<open>\<open>trade.dict()\<close>: the fields a \<open>Trade\<close> object carries, by name.\<close>

definition Trade_dict :: "Trade \<Rightarrow> (string \<times> pyval) list" where
  "Trade_dict t =
     [(''trade_id'', PInt (trade_id t)), (''symbol'', PStr (t_symbol t)),
      (''price'', PFloat (t_price t)), (''quantity'', PFloat (t_quantity t)),
      (''aggressor_side'', PStr (aggressor_side t)),
      (''maker_order_id'', PUUID (maker_order_id t)),
      (''taker_order_id'', PUUID (taker_order_id t)),
      (''timestamp'', PInt (t_timestamp t))]"

text \<open>
  The module globals: \<open>trade_history\<close>, \<open>symbol_trades\<close> (a \<open>defaultdict\<close> of
  \<open>deque(maxlen=1000)\<close>), together with the supply of fresh trade identifiers (\<open>uuid4\<close>)
  and the clock. The append to the file \<open>trades.jsonl\<close> is taken to succeed and is not
  part of the state.
\<close>

record trade_log =
  trade_history :: "Trade list"
  symbol_trades :: "string \<Rightarrow> Trade list option"
  uuid_supply :: nat
  clock :: nat

definition MAKER_FEE_RATE :: rat where
  "MAKER_FEE_RATE = 5 / 10000"

definition TAKER_FEE_RATE :: rat where
  "TAKER_FEE_RATE = 1 / 1000"

text \<open>\<open>deque.append\<close> on a deque with \<open>maxlen=1000\<close>: a full deque drops its oldest entry.\<close>

definition deque_append :: "'a list \<Rightarrow> 'a \<Rightarrow> 'a list" where
  "deque_append dq x = (let ys = dq @ [x] in if 1000 < length ys then tl ys else ys)"

definition log_trade ::
  "string \<Rightarrow> rat \<Rightarrow> rat \<Rightarrow> string \<Rightarrow> uuid \<Rightarrow> uuid \<Rightarrow> trade_log \<Rightarrow> (error + Trade) \<times> trade_log" where
  "log_trade smb prc qty aggressor maker taker lg =
     (let taker_fee = prc * qty * TAKER_FEE_RATE;
          maker_fee = prc * qty * MAKER_FEE_RATE;
          lg1 = lg\<lparr>uuid_supply := Suc (uuid_supply lg)\<rparr>
      in case Trade_init (uuid_supply lg) (clock lg)
                [(''symbol'', PStr smb), (''price'', PFloat prc), (''quantity'', PFloat qty),
                 (''aggressor_side'', PStr aggressor), (''maker_order_id'', PUUID maker),
                 (''taker_order_id'', PUUID taker),
                 (''maker_fee'', PFloat (py_round 4 maker_fee)),
                 (''taker_fee'', PFloat (py_round 4 taker_fee))] of
           Inl e \<Rightarrow> (Inl e, lg1)
         | Inr trade \<Rightarrow>
             (Inr trade,
              lg1\<lparr>trade_history := trade_history lg1 @ [trade],
                  symbol_trades := (symbol_trades lg1)
                    (smb \<mapsto> deque_append (case symbol_trades lg1 smb of None \<Rightarrow> [] | Some dq \<Rightarrow> dq)
                                          trade)\<rparr>))"

text \<open>Python's \<open>xs[start:]\<close> for an integer \<open>start\<close>.\<close>

definition py_slice_from :: "'a list \<Rightarrow> int \<Rightarrow> 'a list" where
  "py_slice_from xs start =
     (let n = int (length xs);
          s = (if start < 0 then max (start + n) 0 else min start n)
      in drop (nat s) xs)"

definition get_recent_trades :: "string \<Rightarrow> int \<Rightarrow> trade_log \<Rightarrow> Trade list" where
  "get_recent_trades smb limit lg =
     (case symbol_trades lg smb of
        None \<Rightarrow> []
      | Some dq \<Rightarrow> rev (py_slice_from dq (- limit)))"

section \<open>engine.py\<close>

text \<open>
  Objects are mutable and shared: the same \<open>Order\<close> object is referenced from a price
  level's list, from the book's identifier index and by the caller, and a \<open>PriceLevel\<close>
  stays reachable through a local variable after its key has been deleted. Every class
  therefore has a heap, a total function from addresses (references) to the object's
  current fields, and containers hold addresses. A dictionary is an association list with
  distinct keys in insertion order.
\<close>

record PriceLevel =
  pl_price :: rat
  pl_orders :: "addr list"
  total_quantity :: rat

record OrderBook =
  ob_symbol :: string
  bids :: "(rat \<times> addr) list"
  asks :: "(rat \<times> addr) list"
  ob_orders :: "(string \<times> addr) list"

record world =
  orders_h :: "addr \<Rightarrow> Order"
  levels_h :: "addr \<Rightarrow> PriceLevel"
  books_h :: "addr \<Rightarrow> OrderBook"
  next_order :: addr
  next_level :: addr
  next_book :: addr
  order_books :: "string \<Rightarrow> addr option"
  tlog :: trade_log

text \<open>Construction of a fresh \<open>Order\<close> object by the caller (pydantic, from a request).\<close>

definition new_order :: "Order \<Rightarrow> world \<Rightarrow> addr \<times> world" where
  "new_order ord w =
     (next_order w, w\<lparr>orders_h := (orders_h w)(next_order w := ord),
                      next_order := Suc (next_order w)\<rparr>)"

text \<open>
  \<open>x == y\<close> on two \<open>Order\<close> references inside \<open>in\<close> and \<open>list.remove\<close>: identity, or
  pydantic's field-wise equality of the two objects.
\<close>

definition same_order :: "world \<Rightarrow> addr \<Rightarrow> addr \<Rightarrow> bool" where
  "same_order w x y = (x = y \<or> orders_h w x = orders_h w y)"

text \<open>\<open>list.remove\<close>: drops the first element that matches (the caller tests \<open>in\<close> first).\<close>

fun list_remove :: "('a \<Rightarrow> bool) \<Rightarrow> 'a list \<Rightarrow> 'a list" where
  "list_remove P [] = []"
| "list_remove P (x # xs) = (if P x then xs else x # list_remove P xs)"

subsection \<open>PriceLevel\<close>

definition PriceLevel_init :: "rat \<Rightarrow> PriceLevel" where
  "PriceLevel_init prc = \<lparr>pl_price = normalize_price prc, pl_orders = [], total_quantity = 0\<rparr>"

definition PriceLevel_add_order :: "addr \<Rightarrow> addr \<Rightarrow> world \<Rightarrow> world" where
  "PriceLevel_add_order lv a w =
     w\<lparr>levels_h := (levels_h w)
         (lv := (levels_h w lv)
            \<lparr>pl_orders := pl_orders (levels_h w lv) @ [a],
             total_quantity := total_quantity (levels_h w lv) + quantity (orders_h w a)\<rparr>)\<rparr>"

definition PriceLevel_remove_order :: "addr \<Rightarrow> addr \<Rightarrow> world \<Rightarrow> world" where
  "PriceLevel_remove_order lv a w =
     (if list_ex (\<lambda>x. same_order w x a) (pl_orders (levels_h w lv)) then
        w\<lparr>levels_h := (levels_h w)
            (lv := (levels_h w lv)
               \<lparr>total_quantity := total_quantity (levels_h w lv) - quantity (orders_h w a),
                pl_orders := list_remove (\<lambda>x. same_order w x a) (pl_orders (levels_h w lv))\<rparr>)\<rparr>
      else w)"

definition is_empty :: "PriceLevel \<Rightarrow> bool" where
  "is_empty lvl = (length (pl_orders lvl) = 0)"

subsection \<open>OrderBook\<close>

definition OrderBook_init :: "string \<Rightarrow> OrderBook" where
  "OrderBook_init smb = \<lparr>ob_symbol = smb, bids = [], asks = [], ob_orders = []\<rparr>"

text \<open>\<open>self.bids if order.side == "buy" else self.asks\<close>, and the store through that reference.\<close>

definition side_book :: "bool \<Rightarrow> OrderBook \<Rightarrow> (rat \<times> addr) list" where
  "side_book is_bid bk = (if is_bid then bids bk else asks bk)"

definition set_side_book :: "bool \<Rightarrow> addr \<Rightarrow> (rat \<times> addr) list \<Rightarrow> world \<Rightarrow> world" where
  "set_side_book is_bid b d w =
     w\<lparr>books_h := (books_h w)
         (b := (if is_bid then (books_h w b)\<lparr>bids := d\<rparr> else (books_h w b)\<lparr>asks := d\<rparr>))\<rparr>"

definition OrderBook_add_order :: "addr \<Rightarrow> addr \<Rightarrow> world \<Rightarrow> (error + unit) \<times> world" where
  "OrderBook_add_order b a w =
     (let w1 = w\<lparr>books_h := (books_h w)
                 (b := (books_h w b)
                    \<lparr>ob_orders := AList.update (order_id (orders_h w a)) a
                                     (ob_orders (books_h w b))\<rparr>)\<rparr>
      in case price (orders_h w1 a) of
           None \<Rightarrow> (Inl TypeError, w1)
         | Some p \<Rightarrow>
            (let price_key = normalize_price p;
                 is_bid = (side (orders_h w1 a) = ''buy'')
             in case map_of (side_book is_bid (books_h w1 b)) price_key of
                  None \<Rightarrow>
                    (let lv = next_level w1;
                         w2 = w1\<lparr>levels_h := (levels_h w1)(lv := PriceLevel_init price_key),
                                 next_level := Suc lv\<rparr>;
                         w3 = set_side_book is_bid b
                                (AList.update price_key lv (side_book is_bid (books_h w2 b))) w2
                     in (Inr (), PriceLevel_add_order lv a w3))
                | Some lv \<Rightarrow> (Inr (), PriceLevel_add_order lv a w1)))"

definition OrderBook_remove_order :: "addr \<Rightarrow> addr \<Rightarrow> world \<Rightarrow> (error + unit) \<times> world" where
  "OrderBook_remove_order b a w =
     (case price (orders_h w a) of
        None \<Rightarrow> (Inl TypeError, w)
      | Some p \<Rightarrow>
         (let price_key = normalize_price p;
              is_bid = (side (orders_h w a) = ''buy'');
              w1 = (case map_of (side_book is_bid (books_h w b)) price_key of
                      None \<Rightarrow> w
                    | Some lv \<Rightarrow>
                       (let w' = PriceLevel_remove_order lv a w
                        in if is_empty (levels_h w' lv)
                           then set_side_book is_bid b
                                  (AList.delete price_key (side_book is_bid (books_h w' b))) w'
                           else w'));
              w2 = w1\<lparr>books_h := (books_h w1)
                        (b := (books_h w1 b)
                           \<lparr>ob_orders := AList.delete (order_id (orders_h w1 a))
                                            (ob_orders (books_h w1 b))\<rparr>)\<rparr>
          in (Inr (), w2)))"

definition get_best_bid :: "OrderBook \<Rightarrow> rat option" where
  "get_best_bid bk = (if bids bk = [] then None else Some (Max (set (map fst (bids bk)))))"

definition get_best_ask :: "OrderBook \<Rightarrow> rat option" where
  "get_best_ask bk = (if asks bk = [] then None else Some (Min (set (map fst (asks bk)))))"

subsection \<open>MatchingEngine\<close>

definition get_order_book :: "string \<Rightarrow> world \<Rightarrow> addr \<times> world" where
  "get_order_book smb w =
     (case order_books w smb of
        Some b \<Rightarrow> (b, w)
      | None \<Rightarrow>
         (next_book w,
          w\<lparr>books_h := (books_h w)(next_book w := OrderBook_init smb),
            next_book := Suc (next_book w),
            order_books := (order_books w)(smb \<mapsto> next_book w)\<rparr>))"

text \<open>\<open>book.asks if is_buy else book.bids\<close>.\<close>

definition opposite_book :: "bool \<Rightarrow> OrderBook \<Rightarrow> (rat \<times> addr) list" where
  "opposite_book is_buy bk = side_book (\<not> is_buy) bk"

text \<open>
  \<open>_can_fully_fill\<close>: the loop over the sorted keys, with the running total. The limit
  price is normalised before the loop, which raises on a missing price.
\<close>

fun can_fill_loop ::
  "bool \<Rightarrow> rat \<Rightarrow> rat \<Rightarrow> (rat \<times> addr) list \<Rightarrow> (addr \<Rightarrow> PriceLevel) \<Rightarrow> rat list \<Rightarrow> rat
     \<Rightarrow> error + bool" where
  "can_fill_loop is_buy price_key qty d lh [] tot = Inr False"
| "can_fill_loop is_buy price_key qty d lh (p # ps) tot =
     (if (is_buy \<and> price_key < p) \<or> (\<not> is_buy \<and> p < price_key) then Inr False
      else case map_of d p of
             None \<Rightarrow> Inl KeyError
           | Some lv \<Rightarrow>
              (let tot' = tot + total_quantity (lh lv)
               in if qty \<le> tot' then Inr True
                  else can_fill_loop is_buy price_key qty d lh ps tot'))"

definition can_fully_fill :: "addr \<Rightarrow> addr \<Rightarrow> world \<Rightarrow> error + bool" where
  "can_fully_fill b a w =
     (case price (orders_h w a) of
        None \<Rightarrow> Inl TypeError
      | Some p \<Rightarrow>
         (let price_key = normalize_price p;
              is_buy = (side (orders_h w a) = ''buy'');
              d = opposite_book is_buy (books_h w b);
              keys = (if is_buy then sort (map fst d) else rev (sort (map fst d)))
          in can_fill_loop is_buy price_key (quantity (orders_h w a)) d (levels_h w) keys 0))"

definition set_quantity :: "addr \<Rightarrow> rat \<Rightarrow> world \<Rightarrow> world" where
  "set_quantity a q w = w\<lparr>orders_h := (orders_h w)(a := (orders_h w a)\<lparr>quantity := q\<rparr>)\<rparr>"

text \<open>
  One pass of the body of the inner loop of \<open>_match_order\<close>, after its \<open>break\<close> test: the
  fill of resting order \<open>r\<close> by incoming order \<open>a\<close> at the level keyed \<open>prc\<close>.
\<close>

definition fill_resting ::
  "addr \<Rightarrow> addr \<Rightarrow> rat \<Rightarrow> addr \<Rightarrow> Trade list \<Rightarrow> world \<Rightarrow> (error + Trade list) \<times> world" where
  "fill_resting b a prc r trades w =
     (let traded_qty = min (quantity (orders_h w a)) (quantity (orders_h w r));
          w1 = set_quantity a (quantity (orders_h w a) - traded_qty) w;
          w2 = set_quantity r (quantity (orders_h w1 r) - traded_qty) w1
      in case log_trade (symbol (orders_h w2 a)) prc traded_qty (side (orders_h w2 a))
                (order_id (orders_h w2 r)) (order_id (orders_h w2 a)) (tlog w2) of
           (Inl e, lg) \<Rightarrow> (Inl e, w2\<lparr>tlog := lg\<rparr>)
         | (Inr trade, lg) \<Rightarrow>
            (let w3 = w2\<lparr>tlog := lg\<rparr>
             in if quantity (orders_h w3 r) \<le> 0 then
                  (case OrderBook_remove_order b r w3 of
                     (Inl e, w4) \<Rightarrow> (Inl e, w4)
                   | (Inr u, w4) \<Rightarrow> (Inr (trades @ [trade]), w4))
                else (Inr (trades @ [trade]), w3)))"

text \<open>The inner loop, over the copy \<open>level.orders[:]\<close> taken when the level is entered.\<close>

fun match_level ::
  "addr \<Rightarrow> addr \<Rightarrow> rat \<Rightarrow> addr list \<Rightarrow> Trade list \<Rightarrow> world \<Rightarrow> (error + Trade list) \<times> world" where
  "match_level b a prc [] trades w = (Inr trades, w)"
| "match_level b a prc (r # rs) trades w =
     (if quantity (orders_h w a) \<le> 0 then (Inr trades, w)
      else case fill_resting b a prc r trades w of
             (Inl e, w') \<Rightarrow> (Inl e, w')
           | (Inr trades', w') \<Rightarrow> match_level b a prc rs trades' w')"

text \<open>
  The body of the outer loop after the price test: look the level up, run the inner loop,
  and delete the key when the level object is empty.
\<close>

definition visit_level ::
  "addr \<Rightarrow> addr \<Rightarrow> bool \<Rightarrow> rat \<Rightarrow> Trade list \<Rightarrow> world \<Rightarrow> (error + Trade list) \<times> world" where
  "visit_level b a is_buy prc trades w =
     (case map_of (opposite_book is_buy (books_h w b)) prc of
        None \<Rightarrow> (Inl KeyError, w)
      | Some lv \<Rightarrow>
         (case match_level b a prc (pl_orders (levels_h w lv)) trades w of
            (Inl e, w') \<Rightarrow> (Inl e, w')
          | (Inr trades', w') \<Rightarrow>
             (if is_empty (levels_h w' lv) then
                (case map_of (opposite_book is_buy (books_h w' b)) prc of
                   None \<Rightarrow> (Inl KeyError, w')
                 | Some lv' \<Rightarrow>
                    (Inr trades',
                     set_side_book (\<not> is_buy) b
                       (AList.delete prc (opposite_book is_buy (books_h w' b))) w'))
              else (Inr trades', w'))))"

text \<open>
  The price test at the head of the outer loop: \<open>Inr True\<close> is \<open>break\<close>. For an order that
  is not a market order the limit price is normalised on either side of the \<open>or\<close>.
\<close>

definition price_stop :: "bool \<Rightarrow> bool \<Rightarrow> rat \<Rightarrow> Order \<Rightarrow> error + bool" where
  "price_stop market is_buy prc order =
     (if market then Inr False
      else case price order of
             None \<Rightarrow> Inl TypeError
           | Some lmt \<Rightarrow>
               Inr ((is_buy \<and> normalize_price lmt < prc) \<or>
                    (\<not> is_buy \<and> prc < normalize_price lmt)))"

fun match_levels ::
  "addr \<Rightarrow> addr \<Rightarrow> bool \<Rightarrow> bool \<Rightarrow> rat list \<Rightarrow> Trade list \<Rightarrow> world
     \<Rightarrow> (error + Trade list) \<times> world" where
  "match_levels b a market is_buy [] trades w = (Inr trades, w)"
| "match_levels b a market is_buy (prc # ps) trades w =
     (case price_stop market is_buy prc (orders_h w a) of
        Inl e \<Rightarrow> (Inl e, w)
      | Inr True \<Rightarrow> (Inr trades, w)
      | Inr False \<Rightarrow>
         (case visit_level b a is_buy prc trades w of
            (Inl e, w') \<Rightarrow> (Inl e, w')
          | (Inr trades', w') \<Rightarrow>
             (if quantity (orders_h w' a) \<le> 0 then (Inr trades', w')
              else match_levels b a market is_buy ps trades' w')))"

definition match_order ::
  "addr \<Rightarrow> addr \<Rightarrow> bool \<Rightarrow> world \<Rightarrow> (error + Trade list) \<times> world" where
  "match_order b a market w =
     (let is_buy = (side (orders_h w a) = ''buy'');
          d = opposite_book is_buy (books_h w b);
          price_levels = (if is_buy then sort (map fst d) else rev (sort (map fst d)))
      in match_levels b a market is_buy price_levels [] w)"

definition execute_market_order :: "addr \<Rightarrow> addr \<Rightarrow> world \<Rightarrow> (error + Trade list) \<times> world" where
  "execute_market_order b a w = match_order b a True w"

definition execute_limit_order ::
  "addr \<Rightarrow> addr \<Rightarrow> bool \<Rightarrow> world \<Rightarrow> (error + Trade list) \<times> world" where
  "execute_limit_order b a ioc w =
     (case match_order b a False w of
        (Inl e, w') \<Rightarrow> (Inl e, w')
      | (Inr trades, w') \<Rightarrow>
         (if 0 < quantity (orders_h w' a) \<and> \<not> ioc then
            (case OrderBook_add_order b a w' of
               (Inl e, w'') \<Rightarrow> (Inl e, w'')
             | (Inr u, w'') \<Rightarrow> (Inr trades, w''))
          else (Inr trades, w')))"

definition process_order :: "addr \<Rightarrow> world \<Rightarrow> (error + Trade list) \<times> world" where
  "process_order a w =
     (case get_order_book (symbol (orders_h w a)) w of
        (b, w0) \<Rightarrow>
         (if order_type (orders_h w0 a) = ''market'' then execute_market_order b a w0
          else if order_type (orders_h w0 a) = ''limit'' then execute_limit_order b a False w0
          else if order_type (orders_h w0 a) = ''ioc'' then execute_limit_order b a True w0
          else if order_type (orders_h w0 a) = ''fok'' then
            (case can_fully_fill b a w0 of
               Inl e \<Rightarrow> (Inl e, w0)
             | Inr True \<Rightarrow> execute_limit_order b a False w0
             | Inr False \<Rightarrow> (Inr [], w0))
          else (Inr [], w0)))"

text \<open>
  \<open>cancel_order\<close>. The value returned is a Python value that is \<open>False\<close>, \<open>True\<close> or
  \<open>None\<close>: \<open>Some False\<close>, \<open>Some True\<close> and \<open>None\<close> here. The last line of the source
  returns what \<open>OrderBook.remove_order\<close> returns, a function with no \<open>return\<close> statement.
\<close>

definition cancel_order :: "string \<Rightarrow> string \<Rightarrow> world \<Rightarrow> (error + bool option) \<times> world" where
  "cancel_order smb oid w =
     (case order_books w smb of
        None \<Rightarrow> (Inr (Some False), w)
      | Some b \<Rightarrow>
         (case map_of (ob_orders (books_h w b)) oid of
            None \<Rightarrow> (Inr (Some False), w)
          | Some a \<Rightarrow>
             (case OrderBook_remove_order b a w of
                (Inl e, w') \<Rightarrow> (Inl e, w')
              | (Inr u, w') \<Rightarrow> (Inr None, w'))))"

definition get_bbo :: "string \<Rightarrow> world \<Rightarrow> BBO" where
  "get_bbo smb w =
     (case order_books w smb of
        None \<Rightarrow> \<lparr>bid = None, ask = None\<rparr>
      | Some b \<Rightarrow> \<lparr>bid = get_best_bid (books_h w b), ask = get_best_ask (books_h w b)\<rparr>)"

text \<open>
  Submission of a new order: the caller builds the object and hands it to
  \<open>process_order\<close> (as \<open>main.submit_order\<close>, the reload of saved orders and the stop
  monitor do).
\<close>

definition submit :: "Order \<Rightarrow> world \<Rightarrow> (error + Trade list) \<times> world" where
  "submit ord w = (case new_order ord w of (a, w1) \<Rightarrow> process_order a w1)"

text \<open>An engine that has processed nothing.\<close>

definition empty_log :: trade_log where
  "empty_log = \<lparr>trade_history = [], symbol_trades = (\<lambda>s. None), uuid_supply = 0, clock = 0\<rparr>"

definition empty_world :: world where
  "empty_world =
     \<lparr>orders_h = (\<lambda>x. \<lparr>order_id = [], symbol = [], order_type = [], side = [], quantity = 0,
                       price = None, timestamp = 0, trigger_price = None, trigger_type = None\<rparr>),
      levels_h = (\<lambda>x. PriceLevel_init 0),
      books_h = (\<lambda>x. OrderBook_init []),
      next_order = 0, next_level = 0, next_book = 0,
      order_books = (\<lambda>s. None),
      tlog = empty_log\<rparr>"

section \<open>main.py\<close>

text \<open>\<open>HTTPException(status_code=...)\<close> and the reply \<open>OrderResponse\<close>.\<close>

datatype http_error = HTTPException nat

record OrderResponse =
  resp_order_id :: uuid
  resp_trades :: nat
  resp_status :: string

text \<open>
  \<open>submit_stop_order\<close>, the only caller of \<open>add_stop_order\<close>: an order whose trigger price
  or trigger type is not truthy is refused with status 400, and so is one whose order
  type is neither limit nor market; any other order is queued.
\<close>

definition submit_stop_order ::
  "Order \<Rightarrow> stop_orders \<Rightarrow> (http_error + OrderResponse) \<times> stop_orders" where
  "submit_stop_order order st =
     (if \<not> truthy_float (trigger_price order) \<or> \<not> truthy_str (trigger_type order) then
        (Inl (HTTPException 400), st)
      else if order_type order \<notin> set [''limit'', ''market''] then
        (Inl (HTTPException 400), st)
      else
        (Inr \<lparr>resp_order_id = order_id order, resp_trades = 0, resp_status = ''queued''\<rparr>,
         add_stop_order order st))"

text \<open>
  The stores of pending orders that the program can reach. The store is empty at import;
  \<open>submit_stop_order\<close> appends to it; \<open>monitor_stop_orders\<close> takes orders out of it with
  \<open>stop_orders_by_symbol[symbol].remove(order)\<close>, and nothing else writes to it.
\<close>

inductive pending_store :: "stop_orders \<Rightarrow> bool" where
  pending_init: "pending_store no_stop_orders"
| pending_submit: "pending_store st \<Longrightarrow> submit_stop_order order st = (res, st') \<Longrightarrow> pending_store st'"
| pending_remove: "pending_store st \<Longrightarrow> pending_store (st(smb := remove1 order (st smb)))"

section \<open>Relations between engine states\<close>

text \<open>An order without its remaining quantity: the fields that matching never writes.\<close>

definition static :: "Order \<Rightarrow> Order" where
  "static ord = ord\<lparr>quantity := 0\<rparr>"

text \<open>
  What every step of a matching pass and every removal keep: orders change in their
  quantity only, the lists of levels and the dictionaries of books lose entries and gain
  none, and no order or level is allocated.
\<close>

definition shrinks :: "world \<Rightarrow> world \<Rightarrow> bool" where
  "shrinks w w' \<longleftrightarrow>
     (\<forall>x. static (orders_h w' x) = static (orders_h w x)) \<and>
     (\<forall>lv. set (pl_orders (levels_h w' lv)) \<subseteq> set (pl_orders (levels_h w lv)) \<and>
           (distinct (pl_orders (levels_h w lv)) \<longrightarrow> distinct (pl_orders (levels_h w' lv)))) \<and>
     (\<forall>b. set (bids (books_h w' b)) \<subseteq> set (bids (books_h w b)) \<and>
          set (asks (books_h w' b)) \<subseteq> set (asks (books_h w b)) \<and>
          set (ob_orders (books_h w' b)) \<subseteq> set (ob_orders (books_h w b)) \<and>
          (distinct (map fst (bids (books_h w b))) \<longrightarrow> distinct (map fst (bids (books_h w' b)))) \<and>
          (distinct (map fst (asks (books_h w b))) \<longrightarrow> distinct (map fst (asks (books_h w' b))))) \<and>
     next_order w' = next_order w \<and> next_level w' = next_level w"

text \<open>
  A fill of the resting order \<open>r\<close> by the incoming order \<open>a\<close> in book \<open>b\<close>, and the trade
  \<open>t\<close> recorded for it: the aggressor side and the taker are \<open>a\<close>'s, the maker is \<open>r\<close>,
  and \<open>r\<close> rests in the opposite level stored under the trade's price.
\<close>

definition fill_of :: "world \<Rightarrow> addr \<Rightarrow> addr \<Rightarrow> bool \<Rightarrow> addr \<Rightarrow> Trade \<Rightarrow> bool" where
  "fill_of w b a is_buy r t \<longleftrightarrow>
     aggressor_side t = side (orders_h w a) \<and>
     taker_order_id t = order_id (orders_h w a) \<and>
     maker_order_id t = order_id (orders_h w r) \<and>
     (\<exists>lv. (t_price t, lv) \<in> set (opposite_book is_buy (books_h w b)) \<and>
           r \<in> set (pl_orders (levels_h w lv)))"

text \<open>
  The quantity that a list of fills takes from order \<open>x\<close> as a maker, and the quantity it
  takes from the incoming order.
\<close>

definition filled :: "(addr \<times> Trade) list \<Rightarrow> addr \<Rightarrow> rat" where
  "filled fills x = sum_list (map (\<lambda>(r, t). if r = x then t_quantity t else 0) fills)"

definition taken :: "(addr \<times> Trade) list \<Rightarrow> rat" where
  "taken fills = sum_list (map (\<lambda>(r, t). t_quantity t) fills)"

text \<open>
  Between two states the quantities are accounted for by the fills: every order has lost
  what the fills naming it as maker traded, and the incoming order \<open>a\<close> what all of them
  traded.
\<close>

definition accounts :: "world \<Rightarrow> world \<Rightarrow> addr \<Rightarrow> (addr \<times> Trade) list \<Rightarrow> bool" where
  "accounts w w' a fills \<longleftrightarrow>
     (\<forall>x. quantity (orders_h w' x) =
            quantity (orders_h w x) - filled fills x - (if x = a then taken fills else 0))"

text \<open>
  An order with identifier \<open>i\<close> rests in book \<open>b\<close>: the identifier is a key of the
  book's index, or an order with it is in the list of a level of either side.
\<close>

definition rests :: "world \<Rightarrow> addr \<Rightarrow> uuid \<Rightarrow> bool" where
  "rests w b i \<longleftrightarrow>
     i \<in> fst ` set (ob_orders (books_h w b)) \<or>
     list_ex (\<lambda>(k, lv). list_ex (\<lambda>r. order_id (orders_h w r) = i) (pl_orders (levels_h w lv)))
       (bids (books_h w b) @ asks (books_h w b))"

text \<open>
  A level stored under key \<open>k\<close> on the bid side (\<open>is_bid\<close>) or the ask side is well
  formed: it holds at least one order, no order twice, and every order in it has been
  built, has quantity left (unless it is in the set \<open>X\<close> of orders being filled at the
  moment), is of that side and has a price that normalises to \<open>k\<close>.
\<close>

definition level_ok :: "addr set \<Rightarrow> world \<Rightarrow> bool \<Rightarrow> rat \<Rightarrow> addr \<Rightarrow> bool" where
  "level_ok X w is_bid k lv \<longleftrightarrow>
     pl_orders (levels_h w lv) \<noteq> [] \<and> distinct (pl_orders (levels_h w lv)) \<and>
     (\<forall>r\<in>set (pl_orders (levels_h w lv)).
        r < next_order w \<and> (r \<notin> X \<longrightarrow> 0 < quantity (orders_h w r)) \<and>
        (side (orders_h w r) = ''buy'') = is_bid \<and>
        (\<exists>p. price (orders_h w r) = Some p \<and> normalize_price p = k))"

text \<open>The level object \<open>lv\<close> is stored under key \<open>k\<close> on that side of book \<open>b\<close>.\<close>

definition stored :: "world \<Rightarrow> addr \<Rightarrow> bool \<Rightarrow> rat \<Rightarrow> addr \<Rightarrow> bool" where
  "stored w b is_bid k lv \<longleftrightarrow> (k, lv) \<in> set (side_book is_bid (books_h w b))"

text \<open>The order object \<open>r\<close> is in the list of a stored level of some book.\<close>

definition resting :: "world \<Rightarrow> addr \<Rightarrow> bool" where
  "resting w r \<longleftrightarrow> (\<exists>b sd k lv. stored w b sd k lv \<and> r \<in> set (pl_orders (levels_h w lv)))"

text \<open>
  The parts of the invariant of engine states: stored levels are allocated and well
  formed; dictionary keys are distinct; a level object is stored in one place; an order
  object is in one stored level; and in every book each bid key is below each ask key.
\<close>

definition inv_levels :: "addr set \<Rightarrow> world \<Rightarrow> bool" where
  "inv_levels X w \<longleftrightarrow>
     (\<forall>b sd k lv. stored w b sd k lv \<longrightarrow> lv < next_level w \<and> level_ok X w sd k lv)"

definition inv_keys :: "world \<Rightarrow> bool" where
  "inv_keys w \<longleftrightarrow> (\<forall>b sd. distinct (map fst (side_book sd (books_h w b))))"

definition inv_loc :: "world \<Rightarrow> bool" where
  "inv_loc w \<longleftrightarrow>
     (\<forall>b sd k lv b' sd' k'. stored w b sd k lv \<longrightarrow> stored w b' sd' k' lv \<longrightarrow>
         b = b' \<and> sd = sd' \<and> k = k')"

definition inv_own :: "world \<Rightarrow> bool" where
  "inv_own w \<longleftrightarrow>
     (\<forall>b sd k lv b' sd' k' lv' r. stored w b sd k lv \<longrightarrow> stored w b' sd' k' lv' \<longrightarrow>
         r \<in> set (pl_orders (levels_h w lv)) \<longrightarrow> r \<in> set (pl_orders (levels_h w lv')) \<longrightarrow>
         lv = lv')"

definition inv_cross :: "world \<Rightarrow> bool" where
  "inv_cross w \<longleftrightarrow>
     (\<forall>b kb lb ka la. stored w b True kb lb \<longrightarrow> stored w b False ka la \<longrightarrow> kb < ka)"

definition Inv :: "addr set \<Rightarrow> world \<Rightarrow> bool" where
  "Inv X w \<longleftrightarrow> inv_levels X w \<and> inv_keys w \<and> inv_loc w \<and> inv_own w \<and> inv_cross w"

text \<open>Every stored level holds orders, and each of them has quantity left.\<close>

definition live :: "world \<Rightarrow> bool" where
  "live w \<longleftrightarrow>
     (\<forall>b sd k lv. stored w b sd k lv \<longrightarrow>
        pl_orders (levels_h w lv) \<noteq> [] \<and>
        (\<forall>r\<in>set (pl_orders (levels_h w lv)). 0 < quantity (orders_h w r)))"

text \<open>In the list \<open>xs\<close>, \<open>x\<close> comes (first) before an occurrence of \<open>y\<close>.\<close>

fun before :: "'a \<Rightarrow> 'a \<Rightarrow> 'a list \<Rightarrow> bool" where
  "before x y [] = False"
| "before x y (z # zs) = (if z = x then y \<in> set zs else before x y zs)"

text \<open>
  The engine states that the program can reach: the engine starts empty, and its state is
  changed by the processing of a new order and by a cancellation, whether the call
  returns or raises.
\<close>

inductive reachable :: "world \<Rightarrow> bool" where
  reachable_init: "reachable empty_world"
| reachable_submit: "reachable w \<Longrightarrow> submit ord w = (res, w') \<Longrightarrow> reachable w'"
| reachable_cancel: "reachable w \<Longrightarrow> cancel_order smb oid w = (res', w') \<Longrightarrow> reachable w'"

section \<open>Scenarios\<close>

text \<open>Concrete orders and engine states used to run the model.\<close>

definition mk_order :: "uuid \<Rightarrow> string \<Rightarrow> string \<Rightarrow> rat \<Rightarrow> rat option \<Rightarrow> Order" where
  "mk_order i t s q p =
     \<lparr>order_id = i, symbol = ''BTC-USDT'', order_type = t, side = s, quantity = q, price = p,
      timestamp = 0, trigger_price = None, trigger_type = None\<rparr>"

text \<open>A sell limit of 2 at 100 rests alone in the book.\<close>

definition world_one_ask :: world where
  "world_one_ask = snd (submit (mk_order ''s1'' ''limit'' ''sell'' 2 (Some 100)) empty_world)"

text \<open>Then a buy limit of 1 at 100 takes half of it.\<close>

definition world_partial_fill :: world where
  "world_partial_fill =
     snd (submit (mk_order ''b1'' ''limit'' ''buy'' 1 (Some 100)) world_one_ask)"

text \<open>Then a fill-or-kill buy of 2 at 100 arrives.\<close>

definition run_fok :: "(error + Trade list) \<times> world" where
  "run_fok = submit (mk_order ''b2'' ''fok'' ''buy'' 2 (Some 100)) world_partial_fill"

text \<open>A take-profit sell whose trigger price is zero, and a stop-loss sell with trigger 99.\<close>

definition zero_trigger_order :: Order where
  "zero_trigger_order =
     \<lparr>order_id = ''c1'', symbol = ''BTC-USDT'', order_type = ''market'', side = ''sell'',
      quantity = 1, price = None, timestamp = 0, trigger_price = Some 0,
      trigger_type = Some ''take_profit''\<rparr>"

definition stop_loss_order :: Order where
  "stop_loss_order =
     \<lparr>order_id = ''c2'', symbol = ''BTC-USDT'', order_type = ''market'', side = ''sell'',
      quantity = 1, price = None, timestamp = 0, trigger_price = Some 99,
      trigger_type = Some ''stop_loss''\<rparr>"

definition two_trades_log :: trade_log where
  "two_trades_log =
     snd (log_trade ''BTC-USDT'' 101 2 ''sell'' ''m2'' ''t2''
       (snd (log_trade ''BTC-USDT'' 100 1 ''buy'' ''m1'' ''t1'' empty_log)))"

text \<open>Two sell limits rest at 100, of 2 and then of 3.\<close>

definition world_two_asks :: world where
  "world_two_asks =
     snd (submit (mk_order ''s2'' ''limit'' ''sell'' 3 (Some 100))
       (snd (submit (mk_order ''s1'' ''limit'' ''sell'' 2 (Some 100)) empty_world)))"

text \<open>A buy limit of 1 at 100 has been built against them and not yet processed.\<close>

definition world_buy_arrives :: world where
  "world_buy_arrives = snd (new_order (mk_order ''b1'' ''limit'' ''buy'' 1 (Some 100)) world_two_asks)"

text \<open>
  An immediate-or-cancel buy of 3 at 99 has been built against the lone ask at 100 and not
  yet processed; and the same order typed limit.
\<close>

definition world_ioc_arrives :: world where
  "world_ioc_arrives = snd (new_order (mk_order ''i1'' ''ioc'' ''buy'' 3 (Some 99)) world_one_ask)"

definition world_limit_arrives :: world where
  "world_limit_arrives = snd (new_order (mk_order ''i1'' ''limit'' ''buy'' 3 (Some 99)) world_one_ask)"

text \<open>A bid of 1 at 99 rests under the lone ask of 2 at 100.\<close>

definition world_bid_and_ask :: world where
  "world_bid_and_ask = snd (submit (mk_order ''b1'' ''limit'' ''buy'' 1 (Some 99)) world_one_ask)"

text \<open>A buy limit of 3 at 100 is submitted against the two asks at 100.\<close>

definition run_buy_three :: "(error + Trade list) \<times> world" where
  "run_buy_three = submit (mk_order ''b1'' ''limit'' ''buy'' 3 (Some 100)) world_two_asks"

section \<open>The conditional-order trigger\<close>

lemma should_trigger_rows:
  assumes "trigger_price order = Some trig" and "trig \<noteq> 0"
    and "trigger_type order = Some ttype" and "ttype \<noteq> []"
  shows "should_trigger order bbo = spec_trigger_table ttype (side order) trig bbo"
  using assms
  by (cases "bid bbo"; cases "ask bbo")
     (auto simp: should_trigger_def spec_trigger_table_def)

lemma truthy_floatD: "truthy_float x \<Longrightarrow> \<exists>v. x = Some v \<and> v \<noteq> 0"
  by (cases x) auto

lemma truthy_strD: "truthy_str x \<Longrightarrow> \<exists>v. x = Some v \<and> v \<noteq> []"
  by (cases x) auto

lemma submit_stop_order_admits:
  assumes "submit_stop_order order st = (res, st')"
  shows "st' = st \<or>
         st' = add_stop_order order st \<and> truthy_float (trigger_price order) \<and>
           truthy_str (trigger_type order)"
  using assms by (auto simp: submit_stop_order_def split: if_splits)

lemma pending_store_truthy:
  assumes "pending_store st" and "order \<in> set (st smb)"
  shows "truthy_float (trigger_price order) \<and> truthy_str (trigger_type order)"
  using assms
proof (induction arbitrary: order smb rule: pending_store.induct)
  case pending_init
  then show ?case by (simp add: no_stop_orders_def)
next
  case (pending_submit st new res st')
  from submit_stop_order_admits [OF pending_submit.hyps(2)] show ?case
  proof
    assume "st' = st"
    with pending_submit show ?thesis by blast
  next
    assume a: "st' = add_stop_order new st \<and> truthy_float (trigger_price new) \<and>
           truthy_str (trigger_type new)"
    with pending_submit.prems have "order = new \<or> order \<in> set (st smb)"
      by (auto simp: add_stop_order_def split: if_splits)
    with a pending_submit.IH show ?thesis by blast
  qed
next
  case (pending_remove st smb' gone)
  then have "order \<in> set (st smb)"
    using set_remove1_subset [of gone "st smb'"] by (auto split: if_splits)
  with pending_remove.IH show ?case by blast
qed

lemma zero_trigger_order_refused:
  "submit_stop_order zero_trigger_order st = (Inl (HTTPException 400), st)"
  by (simp add: submit_stop_order_def zero_trigger_order_def)

text \<open>
  Claim C9: a pending conditional order triggers exactly when its row of the trigger table
  holds on the current BBO: for \<open>stop_loss\<close> and \<open>stop_limit\<close> a buy on \<open>ask \<ge> trigger\<close>
  and a sell on \<open>bid \<le> trigger\<close>; for \<open>take_profit\<close> a buy on \<open>ask \<le> trigger\<close> and a
  sell on \<open>bid \<ge> trigger\<close>; never when that side of the BBO is absent. An order is pending
  when it is in the store of its symbol; every order there was admitted by
  \<open>submit_stop_order\<close>, so its trigger price and trigger type are present.
\<close>

theorem pending_order_triggers_by_table:
  assumes "pending_store st" and "order \<in> set (st smb)"
  shows "\<exists>trig ttype. trigger_price order = Some trig \<and> trigger_type order = Some ttype \<and>
           should_trigger order bbo = spec_trigger_table ttype (side order) trig bbo"
proof -
  from pending_store_truthy [OF assms] obtain trig ttype where
    "trigger_price order = Some trig" "trig \<noteq> 0" "trigger_type order = Some ttype" "ttype \<noteq> []"
    using truthy_floatD truthy_strD by blast
  then show ?thesis
    using should_trigger_rows by blast
qed

theorem pending_order_triggers_by_table_witness:
  "pending_store (snd (submit_stop_order stop_loss_order no_stop_orders)) \<and>
   stop_loss_order \<in> set (snd (submit_stop_order stop_loss_order no_stop_orders) ''BTC-USDT'') \<and>
   should_trigger stop_loss_order \<lparr>bid = Some (197 / 2), ask = None\<rparr> \<and>
   spec_trigger_table ''stop_loss'' ''sell'' 99 \<lparr>bid = Some (197 / 2), ask = None\<rparr> \<and>
   \<not> should_trigger stop_loss_order \<lparr>bid = Some 100, ask = Some 101\<rparr> \<and>
   \<not> spec_trigger_table ''stop_loss'' ''sell'' 99 \<lparr>bid = Some 100, ask = Some 101\<rparr>"
proof -
  have p: "pending_store (snd (submit_stop_order stop_loss_order no_stop_orders))"
    by (rule pending_submit [OF pending_init, of stop_loss_order
          "fst (submit_stop_order stop_loss_order no_stop_orders)"]) simp
  have m: "stop_loss_order \<in> set (snd (submit_stop_order stop_loss_order no_stop_orders) ''BTC-USDT'')"
    by (simp add: submit_stop_order_def add_stop_order_def no_stop_orders_def stop_loss_order_def)
  have f: "trigger_price stop_loss_order = Some 99" "trigger_type stop_loss_order = Some ''stop_loss''"
    "side stop_loss_order = ''sell''"
    by (simp_all add: stop_loss_order_def)
  show ?thesis
    using pending_order_triggers_by_table [OF p m, of "\<lparr>bid = Some (197 / 2), ask = None\<rparr>"]
      pending_order_triggers_by_table [OF p m, of "\<lparr>bid = Some 100, ask = Some 101\<rparr>"] p m
    by (simp add: f spec_trigger_table_def)
qed

section \<open>The trade recorder\<close>

lemma py_slice_from_zero: "py_slice_from xs 0 = xs"
  by (simp add: py_slice_from_def)

lemma py_slice_from_neg:
  assumes "0 < k"
  shows "py_slice_from xs (- k) = drop (length xs - nat k) xs"
proof -
  have "nat (max (- k + int (length xs)) 0) = length xs - nat k"
    using assms by (simp add: max_def nat_diff_distrib')
  then show ?thesis
    using assms by (simp add: py_slice_from_def Let_def)
qed

lemma deque_append_bounded: "length dq \<le> 1000 \<Longrightarrow> length (deque_append dq x) \<le> 1000"
  by (simp add: deque_append_def Let_def)

text \<open>\<open>log_trade\<close> never raises: every required field of \<open>Trade\<close> is among its keywords.\<close>

lemma log_trade_result:
  "log_trade smb prc qty aggressor maker taker lg =
     (let trade = \<lparr>trade_id = uuid_supply lg, t_symbol = smb, t_price = prc, t_quantity = qty,
                   aggressor_side = aggressor, maker_order_id = maker, taker_order_id = taker,
                   t_timestamp = clock lg\<rparr>
      in (Inr trade,
          lg\<lparr>uuid_supply := Suc (uuid_supply lg),
             trade_history := trade_history lg @ [trade],
             symbol_trades := (symbol_trades lg)
               (smb \<mapsto> deque_append (case symbol_trades lg smb of None \<Rightarrow> [] | Some dq \<Rightarrow> dq)
                                     trade)\<rparr>))"
  by (simp add: log_trade_def Trade_init_def Let_def)

text \<open>The per-symbol deques never hold more than 1000 trades.\<close>

lemma log_trade_capacity:
  assumes "\<And>s dq. symbol_trades lg s = Some dq \<Longrightarrow> length dq \<le> 1000"
    and "symbol_trades (snd (log_trade smb prc qty aggressor maker taker lg)) s = Some dq"
  shows "length dq \<le> 1000"
proof (cases "s = smb")
  case True
  have "length (case symbol_trades lg smb of None \<Rightarrow> [] | Some d \<Rightarrow> d) \<le> 1000"
    using assms(1) by (cases "symbol_trades lg smb") auto
  then show ?thesis
    using assms(2) True by (auto simp: log_trade_result Let_def intro: deque_append_bounded)
next
  case False
  then show ?thesis
    using assms by (simp add: log_trade_result Let_def)
qed

text \<open>
  Claim C10: \<open>get_recent_trades(symbol, limit)\<close> with \<open>limit = 0\<close> returns all the trades
  stored for the symbol, newest first (the slice \<open>[-0:]\<close> is the whole list), and with
  \<open>limit > 0\<close> the \<open>min(limit, stored)\<close> newest, newest first.
\<close>

theorem get_recent_trades_limit:
  assumes "symbol_trades lg smb = Some dq"
  shows "get_recent_trades smb 0 lg = rev dq \<and>
         (0 < limit \<longrightarrow>
            get_recent_trades smb limit lg = take (min (nat limit) (length dq)) (rev dq))"
  using assms
  by (auto simp: get_recent_trades_def py_slice_from_zero py_slice_from_neg take_rev min_def)

theorem get_recent_trades_limit_witness:
  "map trade_id (get_recent_trades ''BTC-USDT'' 0 two_trades_log) = [1, 0] \<and>
   map trade_id (get_recent_trades ''BTC-USDT'' 1 two_trades_log) = [1]"
proof -
  obtain dq where dq: "symbol_trades two_trades_log ''BTC-USDT'' = Some dq"
    and ids: "map trade_id dq = [0, 1]"
    by (simp add: two_trades_log_def log_trade_result empty_log_def deque_append_def Let_def)
  show ?thesis
    using get_recent_trades_limit [OF dq, of 1] ids
    by (cases dq) (auto simp: rev_map [symmetric] split: list.splits)
qed

text \<open>
  Claim C8 says that every recorded trade carries a maker fee and a taker fee.
  \<open>log_trade\<close> computes both and passes them to \<open>Trade(...)\<close>, but \<open>models.Trade\<close>
  declares no such fields, so the object built, and what \<open>.dict()\<close> and \<open>.json()\<close> give
  of it, holds neither: for a buy of 1 at 100 the trade has its price and quantity and no
  fee.
\<close>

theorem log_trade_drops_fees:
  "(case fst (log_trade ''BTC-USDT'' 100 1 ''buy'' ''m1'' ''t1'' empty_log) of
      Inl e \<Rightarrow> False
    | Inr trade \<Rightarrow>
        map_of (Trade_dict trade) ''price'' = Some (PFloat 100) \<and>
        map_of (Trade_dict trade) ''quantity'' = Some (PFloat 1) \<and>
        map_of (Trade_dict trade) ''maker_fee'' = None \<and>
        map_of (Trade_dict trade) ''taker_fee'' = None)"
  by (simp add: log_trade_result Trade_dict_def Let_def)

section \<open>Runs of the engine\<close>

text \<open>
  Claim C1 says that a level's aggregate always equals the sum of its orders' remaining
  quantities. \<open>_match_order\<close> lowers the resting order's quantity and leaves
  \<open>total_quantity\<close> alone: after a buy of 1 against a resting sell of 2 at 100, the level
  at 100 holds one order with 1 remaining and an aggregate of 2.
\<close>

theorem partial_fill_leaves_aggregate_stale:
  "map_of (asks (books_h world_partial_fill 0)) 100 = Some 0 \<and>
   pl_orders (levels_h world_partial_fill 0) = [0] \<and>
   quantity (orders_h world_partial_fill 0) = 1 \<and>
   total_quantity (levels_h world_partial_fill 0) = 2"
  by code_simp

text \<open>
  Claim C2 says that a fill-or-kill order is filled completely or changes nothing. On the
  book left by the partial fill the probe reads the stale aggregate 2 and admits a
  fill-or-kill buy of 2; the pass fills 1, empties the level, and fails with \<open>KeyError\<close>
  on the second deletion of the level's key: one trade of 1 is recorded, the order keeps
  1 unfilled, and the ask side has lost its level.
\<close>

theorem fok_partial_fill_and_raise:
  "can_fully_fill 0 2 (snd (new_order (mk_order ''b2'' ''fok'' ''buy'' 2 (Some 100))
     world_partial_fill)) = Inr True \<and>
   fst run_fok = Inl KeyError \<and>
   map t_quantity (drop (length (trade_history (tlog world_partial_fill)))
     (trade_history (tlog (snd run_fok)))) = [1] \<and>
   quantity (orders_h (snd run_fok) 2) = 1 \<and>
   asks (books_h world_partial_fill 0) = [(100, 0)] \<and>
   asks (books_h (snd run_fok) 0) = []"
  by code_simp

text \<open>
  Claim C6 says that \<open>cancel_order\<close> returns true when the order was resting and has been
  removed. It returns the result of \<open>OrderBook.remove_order\<close>, which is \<open>None\<close>: the
  resting sell is found under its identifier, removed from the book, and the call
  returns \<open>None\<close>.
\<close>

theorem cancel_order_returns_none:
  "map_of (ob_orders (books_h world_one_ask 0)) ''s1'' = Some 0 \<and>
   fst (cancel_order ''BTC-USDT'' ''s1'' world_one_ask) = Inr None \<and>
   ob_orders (books_h (snd (cancel_order ''BTC-USDT'' ''s1'' world_one_ask)) 0) = [] \<and>
   asks (books_h (snd (cancel_order ''BTC-USDT'' ''s1'' world_one_ask)) 0) = []"
  by code_simp

section \<open>The matching pass\<close>

lemma shrinks_refl: "shrinks w w"
  by (simp add: shrinks_def)

lemma shrinks_trans: "shrinks w1 w2 \<Longrightarrow> shrinks w2 w3 \<Longrightarrow> shrinks w1 w3"
  unfolding shrinks_def
  by (intro conjI allI impI; (elim conjE)?) (metis, (meson subset_trans)+, simp_all)

lemma static_fields:
  "static x = static y \<Longrightarrow>
     order_id x = order_id y \<and> symbol x = symbol y \<and> side x = side y \<and> price x = price y \<and>
     order_type x = order_type y"
  by (cases x; cases y) (simp add: static_def)

lemma set_list_remove: "set (list_remove P xs) \<subseteq> set xs"
  by (induction xs) auto

lemma distinct_list_remove: "distinct xs \<Longrightarrow> distinct (list_remove P xs)"
  using set_list_remove [of P] by (induction xs) auto

lemma set_delete_subset: "set (AList.delete k d) \<subseteq> set d"
  by (auto simp: AList.delete_eq)

lemma shrinks_set_quantity: "shrinks w (set_quantity a q w)"
  by (simp add: shrinks_def set_quantity_def static_def)

lemma shrinks_PriceLevel_remove_order: "shrinks w (PriceLevel_remove_order lv a w)"
  by (simp add: shrinks_def PriceLevel_remove_order_def set_list_remove distinct_list_remove)

lemma shrinks_delete_side:
  "shrinks w (set_side_book sd b (AList.delete k (side_book sd (books_h w b))) w)"
  by (simp add: shrinks_def set_side_book_def side_book_def set_delete_subset AList.distinct_delete)

lemma shrinks_pop_index:
  "shrinks w (w\<lparr>books_h := (books_h w)(b := (books_h w b)\<lparr>ob_orders := AList.delete k (ob_orders (books_h w b))\<rparr>)\<rparr>)"
  by (simp add: shrinks_def set_delete_subset)

lemma shrinks_OrderBook_remove_order:
  "OrderBook_remove_order b a w = (res, w') \<Longrightarrow> shrinks w w'"
  unfolding OrderBook_remove_order_def Let_def
  by (auto split: option.splits if_splits
      intro!: shrinks_refl shrinks_trans [OF _ shrinks_pop_index]
              shrinks_trans [OF shrinks_PriceLevel_remove_order shrinks_delete_side]
              shrinks_PriceLevel_remove_order)

lemma shrinks_static: "shrinks w w' \<Longrightarrow> static (orders_h w' x) = static (orders_h w x)"
  by (simp add: shrinks_def)

lemma shrinks_order_id: "shrinks w w' \<Longrightarrow> order_id (orders_h w' x) = order_id (orders_h w x)"
  using shrinks_static static_fields by blast

lemma shrinks_side: "shrinks w w' \<Longrightarrow> side (orders_h w' x) = side (orders_h w x)"
  using shrinks_static static_fields by blast

lemma shrinks_price: "shrinks w w' \<Longrightarrow> price (orders_h w' x) = price (orders_h w x)"
  using shrinks_static static_fields by blast

lemma shrinks_level: "shrinks w w' \<Longrightarrow> r \<in> set (pl_orders (levels_h w' lv)) \<Longrightarrow> r \<in> set (pl_orders (levels_h w lv))"
  by (auto simp: shrinks_def)

lemma shrinks_opposite:
  "shrinks w w' \<Longrightarrow> (k, lv) \<in> set (opposite_book is_buy (books_h w' b))
     \<Longrightarrow> (k, lv) \<in> set (opposite_book is_buy (books_h w b))"
  unfolding shrinks_def opposite_book_def side_book_def
  by (auto split: if_splits)

lemma shrinks_tlog: "shrinks w (w\<lparr>tlog := lg\<rparr>)"
  by (simp add: shrinks_def)

lemma accounts_Nil: "accounts w w a []"
  by (simp add: accounts_def filled_def taken_def)

lemma accounts_append:
  "accounts w w1 a f1 \<Longrightarrow> accounts w1 w' a f2 \<Longrightarrow> accounts w w' a (f1 @ f2)"
  by (simp add: accounts_def filled_def taken_def)

lemma fill_of_shrinks:
  assumes "shrinks w w'" and "fill_of w' b a is_buy r t"
  shows "fill_of w b a is_buy r t"
proof -
  from assms(2) obtain lv where
    f: "aggressor_side t = side (orders_h w' a)" "taker_order_id t = order_id (orders_h w' a)"
      "maker_order_id t = order_id (orders_h w' r)"
    and lv: "(t_price t, lv) \<in> set (opposite_book is_buy (books_h w' b))"
    and r: "r \<in> set (pl_orders (levels_h w' lv))"
    unfolding fill_of_def by blast
  show ?thesis
    unfolding fill_of_def
    using f shrinks_opposite [OF assms(1) lv] shrinks_level [OF assms(1) r]
      shrinks_side [OF assms(1)] shrinks_order_id [OF assms(1)]
    by auto
qed

lemma remove_order_tlog: "OrderBook_remove_order b a w = (res, w') \<Longrightarrow> tlog w' = tlog w"
  unfolding OrderBook_remove_order_def Let_def PriceLevel_remove_order_def set_side_book_def
  by (auto split: option.splits if_splits)

lemma remove_order_orders_h: "OrderBook_remove_order b a w = (res, w') \<Longrightarrow> orders_h w' = orders_h w"
  unfolding OrderBook_remove_order_def Let_def PriceLevel_remove_order_def set_side_book_def
  by (auto split: option.splits if_splits)

lemma fill_resting_shrinks:
  assumes "fill_resting b a prc r trades w = (res, w')"
  shows "shrinks w w'"
proof -
  let ?tq = "min (quantity (orders_h w a)) (quantity (orders_h w r))"
  let ?w1 = "set_quantity a (quantity (orders_h w a) - ?tq) w"
  let ?w2 = "set_quantity r (quantity (orders_h ?w1 r) - ?tq) ?w1"
  have s2: "shrinks w ?w2"
    using shrinks_set_quantity shrinks_trans by blast
  obtain tr lg where lt: "log_trade (symbol (orders_h ?w2 a)) prc ?tq (side (orders_h ?w2 a))
        (order_id (orders_h ?w2 r)) (order_id (orders_h ?w2 a)) (tlog ?w2) = (Inr tr, lg)"
    by (simp add: log_trade_result Let_def)
  let ?w3 = "?w2\<lparr>tlog := lg\<rparr>"
  have s3: "shrinks w ?w3"
    using s2 shrinks_tlog shrinks_trans by blast
  show ?thesis
  proof (cases "quantity (orders_h ?w3 r) \<le> 0")
    case True
    obtain res4 w4 where ro: "OrderBook_remove_order b r ?w3 = (res4, w4)"
      by (cases "OrderBook_remove_order b r ?w3")
    then have "w' = w4"
      using assms lt True unfolding fill_resting_def Let_def
      by (auto split: sum.splits)
    then show ?thesis
      using shrinks_OrderBook_remove_order [OF ro] s3 shrinks_trans by blast
  next
    case False
    then have "w' = ?w3"
      using assms lt unfolding fill_resting_def Let_def by auto
    then show ?thesis using s3 by simp
  qed
qed

lemma set_quantity_simps [simp]:
  "order_id (orders_h (set_quantity a q w) x) = order_id (orders_h w x)"
  "symbol (orders_h (set_quantity a q w) x) = symbol (orders_h w x)"
  "side (orders_h (set_quantity a q w) x) = side (orders_h w x)"
  "price (orders_h (set_quantity a q w) x) = price (orders_h w x)"
  "order_type (orders_h (set_quantity a q w) x) = order_type (orders_h w x)"
  "tlog (set_quantity a q w) = tlog w"
  "levels_h (set_quantity a q w) = levels_h w"
  "books_h (set_quantity a q w) = books_h w"
  "order_books (set_quantity a q w) = order_books w"
  "next_order (set_quantity a q w) = next_order w"
  "next_level (set_quantity a q w) = next_level w"
  "next_book (set_quantity a q w) = next_book w"
  by (simp_all add: set_quantity_def)

lemma set_quantity_quantity:
  "quantity (orders_h (set_quantity a q w) x) = (if x = a then q else quantity (orders_h w x))"
  by (simp add: set_quantity_def)

lemma log_trade_case:
  "(case log_trade smb prc qty ag mk tk lg of (Inl e, l) \<Rightarrow> f e l | (Inr t, l) \<Rightarrow> g t l) =
     g \<lparr>trade_id = uuid_supply lg, t_symbol = smb, t_price = prc, t_quantity = qty,
        aggressor_side = ag, maker_order_id = mk, taker_order_id = tk, t_timestamp = clock lg\<rparr>
       (snd (log_trade smb prc qty ag mk tk lg))"
  by (simp add: log_trade_result Let_def)

lemma fill_resting_unfold:
  "fill_resting b a prc r trades w =
     (let tq = min (quantity (orders_h w a)) (quantity (orders_h w r));
          w1 = set_quantity a (quantity (orders_h w a) - tq) w;
          w2 = set_quantity r (quantity (orders_h w1 r) - tq) w1;
          tr = \<lparr>trade_id = uuid_supply (tlog w), t_symbol = symbol (orders_h w a), t_price = prc,
                t_quantity = tq, aggressor_side = side (orders_h w a),
                maker_order_id = order_id (orders_h w r), taker_order_id = order_id (orders_h w a),
                t_timestamp = clock (tlog w)\<rparr>;
          w3 = w2\<lparr>tlog := snd (log_trade (symbol (orders_h w a)) prc tq (side (orders_h w a))
                  (order_id (orders_h w r)) (order_id (orders_h w a)) (tlog w))\<rparr>
      in if quantity (orders_h w3 r) \<le> 0 then
           (case OrderBook_remove_order b r w3 of
              (Inl e, w4) \<Rightarrow> (Inl e, w4)
            | (Inr u, w4) \<Rightarrow> (Inr (trades @ [tr]), w4))
         else (Inr (trades @ [tr]), w3))"
  unfolding fill_resting_def Let_def log_trade_case
  by (simp split: prod.splits sum.splits)

lemma log_trade_history:
  "trade_history (snd (log_trade smb prc qty ag mk tk lg)) =
     trade_history lg @ [\<lparr>trade_id = uuid_supply lg, t_symbol = smb, t_price = prc, t_quantity = qty,
                   aggressor_side = ag, maker_order_id = mk, taker_order_id = tk,
                   t_timestamp = clock lg\<rparr>]"
  by (simp add: log_trade_result Let_def)

text \<open>One fill: the trade recorded names \<open>r\<close>, and \<open>r\<close> and \<open>a\<close> lose its quantity.\<close>

lemma fill_resting_fill:
  assumes "fill_resting b a prc r trades w = (res, w')"
  shows "\<exists>t. trade_history (tlog w') = trade_history (tlog w) @ [t] \<and>
             (\<forall>ts. res = Inr ts \<longrightarrow> ts = trades @ [t]) \<and>
             t_price t = prc \<and> aggressor_side t = side (orders_h w a) \<and>
             taker_order_id t = order_id (orders_h w a) \<and>
             maker_order_id t = order_id (orders_h w r) \<and>
             t_quantity t = min (quantity (orders_h w a)) (quantity (orders_h w r)) \<and>
             accounts w w' a [(r, t)]"
proof -
  define tq where "tq = min (quantity (orders_h w a)) (quantity (orders_h w r))"
  define tr where "tr = \<lparr>trade_id = uuid_supply (tlog w), t_symbol = symbol (orders_h w a),
                t_price = prc, t_quantity = tq, aggressor_side = side (orders_h w a),
                maker_order_id = order_id (orders_h w r), taker_order_id = order_id (orders_h w a),
                t_timestamp = clock (tlog w)\<rparr>"
  define w3 where "w3 = (set_quantity r (quantity (orders_h (set_quantity a (quantity (orders_h w a) - tq) w) r) - tq)
             (set_quantity a (quantity (orders_h w a) - tq) w))
          \<lparr>tlog := snd (log_trade (symbol (orders_h w a)) prc tq (side (orders_h w a))
                  (order_id (orders_h w r)) (order_id (orders_h w a)) (tlog w))\<rparr>"
  have h3: "trade_history (tlog w3) = trade_history (tlog w) @ [tr]"
    by (simp add: w3_def tr_def log_trade_history)
  have q3: "quantity (orders_h w3 x) =
      quantity (orders_h w x) - (if r = x then tq else 0) - (if x = a then tq else 0)" for x
    by (simp add: w3_def set_quantity_def)
  have eq: "(res, w') = (if quantity (orders_h w3 r) \<le> 0 then
           (case OrderBook_remove_order b r w3 of
              (Inl e, w4) \<Rightarrow> (Inl e, w4)
            | (Inr u, w4) \<Rightarrow> (Inr (trades @ [tr]), w4))
         else (Inr (trades @ [tr]), w3))"
    using assms unfolding fill_resting_unfold Let_def tq_def [symmetric] tr_def [symmetric]
      w3_def [symmetric]
    by simp
  have "trade_history (tlog w') = trade_history (tlog w) @ [tr] \<and>
        (\<forall>ts. res = Inr ts \<longrightarrow> ts = trades @ [tr]) \<and> orders_h w' = orders_h w3"
  proof (cases "quantity (orders_h w3 r) \<le> 0")
    case True
    obtain res4 w4 where ro: "OrderBook_remove_order b r w3 = (res4, w4)"
      by (cases "OrderBook_remove_order b r w3")
    with eq True have "w' = w4" "\<forall>ts. res = Inr ts \<longrightarrow> ts = trades @ [tr]"
      by (auto split: sum.splits)
    then show ?thesis
      using remove_order_tlog [OF ro] remove_order_orders_h [OF ro] h3 by simp
  next
    case False
    with eq show ?thesis using h3 by simp
  qed
  moreover have "accounts w w3 a [(r, tr)]"
    unfolding accounts_def filled_def taken_def using q3 by (simp add: tr_def)
  ultimately show ?thesis
    by (intro exI [of _ tr]) (simp add: tr_def tq_def accounts_def)
qed

lemma match_level_fills:
  assumes "match_level b a prc rs trades w = (res, w')"
  shows "shrinks w w' \<and>
         (\<exists>fills. trade_history (tlog w') = trade_history (tlog w) @ map snd fills \<and>
            (\<forall>ts. res = Inr ts \<longrightarrow> ts = trades @ map snd fills) \<and>
            (\<forall>(r, t)\<in>set fills. r \<in> set rs \<and> t_price t = prc \<and>
               aggressor_side t = side (orders_h w a) \<and>
               taker_order_id t = order_id (orders_h w a) \<and>
               maker_order_id t = order_id (orders_h w r)) \<and>
            accounts w w' a fills)"
  using assms
proof (induction rs arbitrary: trades w)
  case Nil
  then have "w' = w" "res = Inr trades" by auto
  then show ?case
    by (intro conjI exI [of _ "[]"]) (simp_all add: shrinks_refl accounts_Nil)
next
  case (Cons r rs)
  show ?case
  proof (cases "quantity (orders_h w a) \<le> 0")
    case True
    with Cons.prems have "w' = w" "res = Inr trades" by auto
    then show ?thesis
      by (intro conjI exI [of _ "[]"]) (simp_all add: shrinks_refl accounts_Nil)
  next
    case False
    obtain res1 w1 where f: "fill_resting b a prc r trades w = (res1, w1)"
      by (cases "fill_resting b a prc r trades w")
    note s1 = fill_resting_shrinks [OF f]
    from fill_resting_fill [OF f] obtain t where
      h1: "trade_history (tlog w1) = trade_history (tlog w) @ [t]" and
      r1: "\<forall>ts. res1 = Inr ts \<longrightarrow> ts = trades @ [t]" and
      t: "t_price t = prc" "aggressor_side t = side (orders_h w a)"
         "taker_order_id t = order_id (orders_h w a)"
         "maker_order_id t = order_id (orders_h w r)" and
      a1: "accounts w w1 a [(r, t)]"
      by blast
    show ?thesis
    proof (cases res1)
      case (Inl e)
      with Cons.prems False f have "res = Inl e" "w' = w1" by simp_all
      then show ?thesis
        using s1 h1 t a1 by (intro conjI exI [of _ "[(r, t)]"]) simp_all
    next
      case (Inr trades1)
      with Cons.prems False f have m: "match_level b a prc rs trades1 w1 = (res, w')"
        by simp
      from Cons.IH [OF m] obtain fills where
        s2: "shrinks w1 w'" and
        h2: "trade_history (tlog w') = trade_history (tlog w1) @ map snd fills" and
        r2: "\<forall>ts. res = Inr ts \<longrightarrow> ts = trades1 @ map snd fills" and
        n: "\<forall>(r, t)\<in>set fills. r \<in> set rs \<and> t_price t = prc \<and>
               aggressor_side t = side (orders_h w1 a) \<and>
               taker_order_id t = order_id (orders_h w1 a) \<and>
               maker_order_id t = order_id (orders_h w1 r)" and
        a2: "accounts w1 w' a fills"
        by blast
      have tr1: "trades1 = trades @ [t]" using r1 Inr by simp
      have "\<forall>(r', t')\<in>set ((r, t) # fills). r' \<in> set (r # rs) \<and> t_price t' = prc \<and>
               aggressor_side t' = side (orders_h w a) \<and>
               taker_order_id t' = order_id (orders_h w a) \<and>
               maker_order_id t' = order_id (orders_h w r')"
        using n t by (auto simp: shrinks_side [OF s1] shrinks_order_id [OF s1])
      then show ?thesis
        using shrinks_trans [OF s1 s2] h1 h2 r2 tr1 accounts_append [OF a1 a2]
        by (intro conjI exI [of _ "(r, t) # fills"]) simp_all
    qed
  qed
qed


lemma visit_level_fills:
  assumes "visit_level b a is_buy prc trades w = (res, w')"
  shows "shrinks w w' \<and>
         (\<exists>fills. trade_history (tlog w') = trade_history (tlog w) @ map snd fills \<and>
            (\<forall>ts. res = Inr ts \<longrightarrow> ts = trades @ map snd fills) \<and>
            (\<forall>(r, t)\<in>set fills. t_price t = prc \<and> fill_of w b a is_buy r t) \<and>
            accounts w w' a fills)"
proof (cases "map_of (opposite_book is_buy (books_h w b)) prc")
  case None
  with assms have "w' = w" "res = Inl KeyError" by (auto simp: visit_level_def)
  then show ?thesis
    by (intro conjI exI [of _ "[]"]) (simp_all add: shrinks_refl accounts_Nil)
next
  case (Some lv)
  obtain res1 w1 where m: "match_level b a prc (pl_orders (levels_h w lv)) trades w = (res1, w1)"
    by (cases "match_level b a prc (pl_orders (levels_h w lv)) trades w")
  from match_level_fills [OF m] obtain fills where
    s1: "shrinks w w1" and
    h1: "trade_history (tlog w1) = trade_history (tlog w) @ map snd fills" and
    r1: "\<forall>ts. res1 = Inr ts \<longrightarrow> ts = trades @ map snd fills" and
    n: "\<forall>(r, t)\<in>set fills. r \<in> set (pl_orders (levels_h w lv)) \<and> t_price t = prc \<and>
               aggressor_side t = side (orders_h w a) \<and>
               taker_order_id t = order_id (orders_h w a) \<and>
               maker_order_id t = order_id (orders_h w r)" and
    a1: "accounts w w1 a fills"
    by blast
  have tf: "\<forall>(r, t)\<in>set fills. t_price t = prc \<and> fill_of w b a is_buy r t"
    using n map_of_SomeD [OF Some] unfolding fill_of_def by fastforce
  let ?w2 = "set_side_book (\<not> is_buy) b (AList.delete prc (opposite_book is_buy (books_h w1 b))) w1"
  have s12: "shrinks w1 ?w2"
    unfolding opposite_book_def by (rule shrinks_delete_side)
  have tl2: "tlog ?w2 = tlog w1"
    by (simp add: set_side_book_def)
  have a2: "accounts w ?w2 a fills"
    using a1 by (simp add: accounts_def set_side_book_def)
  from assms Some m have
    "(res, w') = (res1, w1) \<or> (res, w') = (Inl KeyError, w1) \<or> (res, w') = (res1, ?w2)"
    unfolding visit_level_def by (auto split: sum.splits if_splits option.splits)
  then show ?thesis
    using s1 shrinks_trans [OF s1 s12] h1 r1 tf tl2 a1 a2
    by (elim disjE; intro conjI exI [of _ fills]) simp_all
qed

lemma price_stop_shrinks:
  "shrinks w w' \<Longrightarrow> price_stop market is_buy prc (orders_h w' a) = price_stop market is_buy prc (orders_h w a)"
  by (simp add: price_stop_def shrinks_price)

lemma match_levels_fills:
  assumes "match_levels b a market is_buy ps trades w = (res, w')"
  shows "shrinks w w' \<and>
         (\<exists>fills. trade_history (tlog w') = trade_history (tlog w) @ map snd fills \<and>
            (\<forall>ts. res = Inr ts \<longrightarrow> ts = trades @ map snd fills) \<and>
            (\<forall>(r, t)\<in>set fills. t_price t \<in> set ps \<and> fill_of w b a is_buy r t \<and>
                price_stop market is_buy (t_price t) (orders_h w a) = Inr False) \<and>
            accounts w w' a fills)"
  using assms
proof (induction ps arbitrary: trades w)
  case Nil
  then have "w' = w" "res = Inr trades" by auto
  then show ?case
    by (intro conjI exI [of _ "[]"]) (simp_all add: shrinks_refl accounts_Nil)
next
  case (Cons prc ps)
  show ?case
  proof (cases "price_stop market is_buy prc (orders_h w a) = Inr False")
    case False
    with Cons.prems have "w' = w" "\<forall>ts. res = Inr ts \<longrightarrow> ts = trades"
      by (auto split: sum.splits bool.splits)
    then show ?thesis
      by (intro conjI exI [of _ "[]"]) (simp_all add: shrinks_refl accounts_Nil)
  next
    case True
    obtain res1 w1 where v: "visit_level b a is_buy prc trades w = (res1, w1)"
      by (cases "visit_level b a is_buy prc trades w")
    from visit_level_fills [OF v] obtain f1 where
      s1: "shrinks w w1" and
      h1: "trade_history (tlog w1) = trade_history (tlog w) @ map snd f1" and
      r1: "\<forall>ts. res1 = Inr ts \<longrightarrow> ts = trades @ map snd f1" and
      n1: "\<forall>(r, t)\<in>set f1. t_price t = prc \<and> fill_of w b a is_buy r t" and
      a1: "accounts w w1 a f1"
      by blast
    have n1': "\<forall>(r, t)\<in>set f1. t_price t \<in> set (prc # ps) \<and> fill_of w b a is_buy r t \<and>
                price_stop market is_buy (t_price t) (orders_h w a) = Inr False"
      using n1 True by auto
    show ?thesis
    proof (cases "\<exists>trades1. res1 = Inr trades1 \<and> \<not> quantity (orders_h w1 a) \<le> 0")
      case False
      with Cons.prems True v have "res = res1" "w' = w1"
        by (auto split: sum.splits)
      then show ?thesis
        using s1 h1 r1 n1' a1 by (intro conjI exI [of _ f1]) simp_all
    next
      case True
      then obtain trades1 where i: "res1 = Inr trades1" and q: "\<not> quantity (orders_h w1 a) \<le> 0"
        by blast
      with Cons.prems \<open>price_stop market is_buy prc (orders_h w a) = Inr False\<close> v
      have m: "match_levels b a market is_buy ps trades1 w1 = (res, w')"
        by simp
      from Cons.IH [OF m] obtain f2 where
        s2: "shrinks w1 w'" and
        h2: "trade_history (tlog w') = trade_history (tlog w1) @ map snd f2" and
        r2: "\<forall>ts. res = Inr ts \<longrightarrow> ts = trades1 @ map snd f2" and
        n2: "\<forall>(r, t)\<in>set f2. t_price t \<in> set ps \<and> fill_of w1 b a is_buy r t \<and>
                price_stop market is_buy (t_price t) (orders_h w1 a) = Inr False" and
        a2: "accounts w1 w' a f2"
        by blast
      have n2': "\<forall>(r, t)\<in>set f2. t_price t \<in> set (prc # ps) \<and> fill_of w b a is_buy r t \<and>
                price_stop market is_buy (t_price t) (orders_h w a) = Inr False"
        using n2 fill_of_shrinks [OF s1] price_stop_shrinks [OF s1] by auto
      have "trades1 = trades @ map snd f1" using r1 i by simp
      then show ?thesis
        using shrinks_trans [OF s1 s2] h1 h2 r2 n1' n2' accounts_append [OF a1 a2]
        by (intro conjI exI [of _ "f1 @ f2"]) auto
    qed
  qed
qed

text \<open>
  Claim C4: every trade that the matching pass emits is the record of one fill of a
  resting order by the incoming order. Its price is the key of the price level in which
  that resting order rests, its aggressor side is the incoming order's side, its maker is
  the identifier of that resting order and its taker the identifier of the incoming
  order. The fills account for every change of quantity: each order has lost exactly what
  the trades naming it as maker traded, and the incoming order what all of them traded.
  The trades emitted are the ones appended to the trade history, and the list returned
  when the pass returns.
\<close>

theorem match_order_fills:
  assumes "match_order b a market w = (res, w')"
  shows "\<exists>fills. trade_history (tlog w') = trade_history (tlog w) @ map snd fills \<and>
           (\<forall>ts. res = Inr ts \<longrightarrow> ts = map snd fills) \<and>
           (\<forall>(r, t)\<in>set fills. fill_of w b a (side (orders_h w a) = ''buy'') r t) \<and>
           accounts w w' a fills"
proof -
  from assms obtain ps where
    "match_levels b a market (side (orders_h w a) = ''buy'') ps [] w = (res, w')"
    unfolding match_order_def Let_def by auto
  from match_levels_fills [OF this] show ?thesis by auto
qed

theorem match_order_fills_witness:
  "fst (match_order 0 2 False world_buy_arrives) = Inr
     [\<lparr>trade_id = 0, t_symbol = ''BTC-USDT'', t_price = 100, t_quantity = 1,
       aggressor_side = ''buy'', maker_order_id = ''s1'', taker_order_id = ''b1'',
       t_timestamp = 0\<rparr>] \<and>
   fill_of world_buy_arrives 0 2 True 0
     \<lparr>trade_id = 0, t_symbol = ''BTC-USDT'', t_price = 100, t_quantity = 1,
      aggressor_side = ''buy'', maker_order_id = ''s1'', taker_order_id = ''b1'',
      t_timestamp = 0\<rparr> \<and>
   \<not> fill_of world_buy_arrives 0 2 True 1
     \<lparr>trade_id = 0, t_symbol = ''BTC-USDT'', t_price = 100, t_quantity = 1,
      aggressor_side = ''buy'', maker_order_id = ''s1'', taker_order_id = ''b1'',
      t_timestamp = 0\<rparr> \<and>
   map (\<lambda>x. quantity (orders_h world_buy_arrives x)) [0, 1, 2] = [2, 3, 1] \<and>
   map (\<lambda>x. quantity (orders_h (snd (match_order 0 2 False world_buy_arrives)) x)) [0, 1, 2] =
     [1, 3, 0]"
proof -
  let ?T = "\<lparr>trade_id = 0, t_symbol = ''BTC-USDT'', t_price = 100, t_quantity = 1,
       aggressor_side = ''buy'', maker_order_id = ''s1'', taker_order_id = ''b1'',
       t_timestamp = 0\<rparr>"
  obtain res w' where run: "match_order 0 2 False world_buy_arrives = (res, w')"
    by (cases "match_order 0 2 False world_buy_arrives")
  have f: "fst (match_order 0 2 False world_buy_arrives) = Inr [?T]"
    by code_simp
  have sd: "(side (orders_h world_buy_arrives 2) = ''buy'') = True"
    by code_simp
  have q: "map (\<lambda>x. quantity (orders_h world_buy_arrives x)) [0, 1, 2] = [2, 3, 1]"
    by code_simp
  have q': "map (\<lambda>x. quantity (orders_h (snd (match_order 0 2 False world_buy_arrives)) x)) [0, 1, 2] =
     [1, 3, 0]"
    by code_simp
  have i: "order_id (orders_h world_buy_arrives 1) = ''s2''"
    by code_simp
  from match_order_fills [OF run] obtain fills where
    r: "\<forall>ts. res = Inr ts \<longrightarrow> ts = map snd fills" and
    n: "\<forall>(r, t)\<in>set fills. fill_of world_buy_arrives 0 2 True r t" and
    a: "accounts world_buy_arrives w' 2 fills"
    unfolding sd by blast
  from r f run have "map snd fills = [?T]" by simp
  then obtain r0 where fills: "fills = [(r0, ?T)]" by auto
  have "quantity (orders_h w' 0) =
      quantity (orders_h world_buy_arrives 0) - filled fills 0 - (if 0 = (2::nat) then taken fills else 0)"
    using a unfolding accounts_def by blast
  then have "r0 = 0"
    using q q' run by (simp add: fills filled_def split: if_splits)
  then have "fill_of world_buy_arrives 0 2 True 0 ?T"
    using n fills by simp
  moreover have "\<not> fill_of world_buy_arrives 0 2 True 1 ?T"
    using i by (simp add: fill_of_def)
  ultimately show ?thesis
    using f q q' by simp
qed

lemma rests_shrinks:
  assumes "shrinks w w'" and "rests w' b i"
  shows "rests w b i"
proof -
  have o: "set (ob_orders (books_h w' b)) \<subseteq> set (ob_orders (books_h w b))"
    and d: "set (bids (books_h w' b) @ asks (books_h w' b)) \<subseteq> set (bids (books_h w b) @ asks (books_h w b))"
    and l: "\<And>lv. set (pl_orders (levels_h w' lv)) \<subseteq> set (pl_orders (levels_h w lv))"
    using assms(1) unfolding shrinks_def by auto
  from assms(2) consider "i \<in> fst ` set (ob_orders (books_h w' b))"
    | k lv r where "(k, lv) \<in> set (bids (books_h w' b) @ asks (books_h w' b))"
        "r \<in> set (pl_orders (levels_h w' lv))" "order_id (orders_h w' r) = i"
    unfolding rests_def list_ex_iff by blast
  then show ?thesis
  proof cases
    case 1
    then show ?thesis using o unfolding rests_def by blast
  next
    case 2
    then have "(k, lv) \<in> set (bids (books_h w b) @ asks (books_h w b))"
        "r \<in> set (pl_orders (levels_h w lv))" "order_id (orders_h w r) = i"
      using d l shrinks_order_id [OF assms(1)] by auto
    then show ?thesis unfolding rests_def list_ex_iff by blast
  qed
qed

lemma get_order_book_rests:
  assumes "get_order_book smb w = (b, w0)" and "rests w0 b' i"
  shows "rests w b' i"
proof (cases "order_books w smb")
  case None
  with assms(1) have w0: "w0 = w\<lparr>books_h := (books_h w)(next_book w := OrderBook_init smb),
            next_book := Suc (next_book w),
            order_books := (order_books w)(smb \<mapsto> next_book w)\<rparr>"
    by (auto simp: get_order_book_def)
  show ?thesis
  proof (cases "b' = next_book w")
    case True
    with assms(2) show ?thesis by (simp add: w0 rests_def OrderBook_init_def)
  next
    case False
    with assms(2) show ?thesis by (simp add: w0 rests_def)
  qed
next
  case (Some b0)
  with assms show ?thesis by (simp add: get_order_book_def)
qed

lemma get_order_book_frame:
  assumes "get_order_book smb w = (b, w0)"
  shows "orders_h w0 = orders_h w" and "tlog w0 = tlog w" and "levels_h w0 = levels_h w"
    and "next_order w0 = next_order w" and "next_level w0 = next_level w"
  using assms by (auto simp: get_order_book_def split: option.splits)

lemma match_order_log:
  assumes "match_order b a market w = (res, w')"
  shows "shrinks w w' \<and>
         (\<exists>new. trade_history (tlog w') = trade_history (tlog w) @ new \<and>
            (\<forall>t\<in>set new. price_stop market (side (orders_h w a) = ''buy'') (t_price t)
                              (orders_h w a) = Inr False))"
proof -
  from assms obtain ps where
    "match_levels b a market (side (orders_h w a) = ''buy'') ps [] w = (res, w')"
    unfolding match_order_def Let_def by auto
  from match_levels_fills [OF this] obtain fills where
    s: "shrinks w w'" and
    h: "trade_history (tlog w') = trade_history (tlog w) @ map snd fills" and
    n: "\<forall>(r, t)\<in>set fills. t_price t \<in> set ps \<and>
          fill_of w b a (side (orders_h w a) = ''buy'') r t \<and>
          price_stop market (side (orders_h w a) = ''buy'') (t_price t) (orders_h w a) = Inr False"
    by blast
  from n have "\<forall>t\<in>set (map snd fills).
      price_stop market (side (orders_h w a) = ''buy'') (t_price t) (orders_h w a) = Inr False"
    by auto
  with s h show ?thesis by blast
qed

lemma price_stop_limit:
  assumes "price_stop False is_buy prc ord = Inr False"
  shows "\<exists>lmt. price ord = Some lmt \<and>
           (if is_buy then prc \<le> normalize_price lmt else normalize_price lmt \<le> prc)"
  using assms by (auto simp: price_stop_def split: option.splits)

text \<open>
  Claim C7: an immediate-or-cancel order is matched under its limit price (a buy trades
  at prices up to the normalised limit, a sell at prices from it) and is never rested:
  when no order with its identifier rests in a book before \<open>process_order\<close>, none does
  after, whether the call returns or raises.
\<close>

theorem ioc_never_rests:
  assumes "order_type (orders_h w a) = ''ioc''"
    and "process_order a w = (res, w')"
    and "\<not> rests w b (order_id (orders_h w a))"
  shows "\<not> rests w' b (order_id (orders_h w a)) \<and>
         (\<forall>t\<in>set (drop (length (trade_history (tlog w))) (trade_history (tlog w'))).
            \<exists>lmt. price (orders_h w a) = Some lmt \<and>
              (if side (orders_h w a) = ''buy'' then t_price t \<le> normalize_price lmt
               else normalize_price lmt \<le> t_price t))"
proof -
  obtain b0 w0 where g: "get_order_book (symbol (orders_h w a)) w = (b0, w0)"
    by (cases "get_order_book (symbol (orders_h w a)) w")
  note fr = get_order_book_frame [OF g]
  have m: "match_order b0 a False w0 = (res, w')"
    using assms(1,2) g fr(1)
    by (auto simp: process_order_def execute_limit_order_def split: prod.splits sum.splits)
  from match_order_log [OF m] obtain new where
    s: "shrinks w0 w'" and
    h: "trade_history (tlog w') = trade_history (tlog w0) @ new" and
    n: "\<forall>t\<in>set new. price_stop False (side (orders_h w0 a) = ''buy'') (t_price t)
                              (orders_h w0 a) = Inr False"
    by blast
  have "\<not> rests w' b (order_id (orders_h w a))"
    using assms(3) rests_shrinks [OF s] get_order_book_rests [OF g] by blast
  moreover have "drop (length (trade_history (tlog w))) (trade_history (tlog w')) = new"
    using h fr(2) by simp
  ultimately show ?thesis
    using n price_stop_limit unfolding fr(1) by blast
qed

theorem ioc_never_rests_witness:
  "order_type (orders_h world_ioc_arrives 1) = ''ioc'' \<and>
   quantity (orders_h world_ioc_arrives 1) = 3 \<and>
   fst (process_order 1 world_ioc_arrives) = Inr [] \<and>
   quantity (orders_h (snd (process_order 1 world_ioc_arrives)) 1) = 3 \<and>
   \<not> rests world_ioc_arrives 0 ''i1'' \<and>
   \<not> rests (snd (process_order 1 world_ioc_arrives)) 0 ''i1'' \<and>
   fst (process_order 1 world_limit_arrives) = Inr [] \<and>
   rests (snd (process_order 1 world_limit_arrives)) 0 ''i1''"
proof -
  obtain res w' where run: "process_order 1 world_ioc_arrives = (res, w')"
    by (cases "process_order 1 world_ioc_arrives")
  have t: "order_type (orders_h world_ioc_arrives 1) = ''ioc''"
    by code_simp
  have i: "order_id (orders_h world_ioc_arrives 1) = ''i1''"
    by code_simp
  have r: "\<not> rests world_ioc_arrives 0 (order_id (orders_h world_ioc_arrives 1))"
    by code_simp
  have f: "fst (process_order 1 world_ioc_arrives) = Inr []"
    by code_simp
  have q: "quantity (orders_h world_ioc_arrives 1) = 3"
    by code_simp
  have q': "quantity (orders_h (snd (process_order 1 world_ioc_arrives)) 1) = 3"
    by code_simp
  have l: "fst (process_order 1 world_limit_arrives) = Inr []"
    by code_simp
  have l': "rests (snd (process_order 1 world_limit_arrives)) 0 ''i1''"
    by code_simp
  show ?thesis
    using ioc_never_rests [OF t run r] t f r q q' l l' run unfolding i by simp
qed

section \<open>The invariant of engine states\<close>

lemma InvD_level: "Inv X w \<Longrightarrow> stored w b sd k lv \<Longrightarrow> level_ok X w sd k lv"
  unfolding Inv_def inv_levels_def by blast

lemma InvD_lt: "Inv X w \<Longrightarrow> stored w b sd k lv \<Longrightarrow> lv < next_level w"
  unfolding Inv_def inv_levels_def by blast

lemma InvD_keys: "Inv X w \<Longrightarrow> distinct (map fst (side_book sd (books_h w b)))"
  unfolding Inv_def inv_keys_def by blast

lemma InvD_loc:
  "Inv X w \<Longrightarrow> stored w b sd k lv \<Longrightarrow> stored w b' sd' k' lv \<Longrightarrow> b = b' \<and> sd = sd' \<and> k = k'"
  unfolding Inv_def inv_loc_def by blast

lemma InvD_own:
  "Inv X w \<Longrightarrow> stored w b sd k lv \<Longrightarrow> stored w b' sd' k' lv' \<Longrightarrow>
     r \<in> set (pl_orders (levels_h w lv)) \<Longrightarrow> r \<in> set (pl_orders (levels_h w lv')) \<Longrightarrow> lv = lv'"
  unfolding Inv_def inv_own_def by blast

lemma InvD_cross: "Inv X w \<Longrightarrow> stored w b True kb lb \<Longrightarrow> stored w b False ka la \<Longrightarrow> kb < ka"
  unfolding Inv_def inv_cross_def by blast

lemma shrinks_stored: "shrinks w w' \<Longrightarrow> stored w' b sd k lv \<Longrightarrow> stored w b sd k lv"
  unfolding shrinks_def stored_def side_book_def by (auto split: if_splits)

lemma shrinks_resting: "shrinks w w' \<Longrightarrow> resting w' r \<Longrightarrow> resting w r"
  unfolding resting_def using shrinks_stored shrinks_level by blast

lemma shrinks_distinct_level:
  "shrinks w w' \<Longrightarrow> distinct (pl_orders (levels_h w lv)) \<Longrightarrow> distinct (pl_orders (levels_h w' lv))"
  unfolding shrinks_def by blast

lemma shrinks_distinct_keys:
  "shrinks w w' \<Longrightarrow> distinct (map fst (side_book sd (books_h w b)))
     \<Longrightarrow> distinct (map fst (side_book sd (books_h w' b)))"
  unfolding shrinks_def side_book_def by (auto split: if_splits)

lemma shrinks_next: "shrinks w w' \<Longrightarrow> next_order w' = next_order w \<and> next_level w' = next_level w"
  unfolding shrinks_def by blast

text \<open>A state that has only lost entries keeps the invariant when what is left is live.\<close>

lemma Inv_shrinks:
  assumes i: "Inv X w" and s: "shrinks w w'" and l: "live w'"
  shows "Inv {} w'"
  unfolding Inv_def inv_levels_def inv_keys_def inv_loc_def inv_own_def inv_cross_def
proof (intro conjI allI impI)
  fix b sd k lv
  assume st: "stored w' b sd k lv"
  note st0 = shrinks_stored [OF s st]
  show "lv < next_level w'"
    using InvD_lt [OF i st0] shrinks_next [OF s] by simp
  have ok: "level_ok X w sd k lv" by (rule InvD_level [OF i st0])
  show "level_ok {} w' sd k lv"
    unfolding level_ok_def
  proof (intro conjI ballI)
    show "pl_orders (levels_h w' lv) \<noteq> []"
      using l st unfolding live_def by blast
    show "distinct (pl_orders (levels_h w' lv))"
      using ok shrinks_distinct_level [OF s] unfolding level_ok_def by blast
  next
    fix r assume r: "r \<in> set (pl_orders (levels_h w' lv))"
    then have r0: "r \<in> set (pl_orders (levels_h w lv))"
      using shrinks_level [OF s] by blast
    show "r < next_order w'"
      using ok r0 shrinks_next [OF s] unfolding level_ok_def by auto
    show "r \<notin> {} \<longrightarrow> 0 < quantity (orders_h w' r)"
      using l st r unfolding live_def by blast
    show "(side (orders_h w' r) = ''buy'') = sd"
      using ok r0 shrinks_side [OF s] unfolding level_ok_def by auto
    show "\<exists>p. price (orders_h w' r) = Some p \<and> normalize_price p = k"
      using ok r0 shrinks_price [OF s] unfolding level_ok_def by auto
  qed
next
  fix b sd
  show "distinct (map fst (side_book sd (books_h w' b)))"
    using InvD_keys [OF i] shrinks_distinct_keys [OF s] by blast
next
  fix b sd k lv b' sd' k'
  assume "stored w' b sd k lv" "stored w' b' sd' k' lv"
  then show "b = b'" "sd = sd'" "k = k'"
    using InvD_loc [OF i shrinks_stored [OF s] shrinks_stored [OF s]] by simp_all
next
  fix b sd k lv b' sd' k' lv' r
  assume "stored w' b sd k lv" "stored w' b' sd' k' lv'"
    "r \<in> set (pl_orders (levels_h w' lv))" "r \<in> set (pl_orders (levels_h w' lv'))"
  then show "lv = lv'"
    using InvD_own [OF i shrinks_stored [OF s] shrinks_stored [OF s]
        shrinks_level [OF s] shrinks_level [OF s]] by simp
next
  fix b kb lb ka la
  assume "stored w' b True kb lb" "stored w' b False ka la"
  then show "kb < ka"
    using InvD_cross [OF i shrinks_stored [OF s] shrinks_stored [OF s]] by simp
qed

lemma Inv_live: "Inv {} w \<Longrightarrow> live w"
  unfolding live_def using InvD_level [of "{}" w] unfolding level_ok_def by auto

lemma list_remove_remove1:
  assumes "\<And>x. x \<in> set xs \<Longrightarrow> P x \<Longrightarrow> x = r"
  shows "list_remove P xs = (if \<exists>x\<in>set xs. P x then remove1 r xs else xs)"
  using assms
proof (induction xs)
  case Nil
  then show ?case by simp
next
  case (Cons x xs)
  then show ?case by (cases "P x") auto
qed

lemma list_remove_none: "\<not> list_ex P xs \<Longrightarrow> list_remove P xs = xs"
  by (induction xs) auto

text \<open>What \<open>OrderBook.remove_order\<close> does, case by case.\<close>

lemma remove_order_no_price:
  "price (orders_h w r) = None \<Longrightarrow> OrderBook_remove_order b r w = (Inl TypeError, w)"
  by (simp add: OrderBook_remove_order_def)

lemma remove_order_absent:
  assumes "price (orders_h w r) = Some p"
    and "map_of (side_book (side (orders_h w r) = ''buy'') (books_h w b)) (normalize_price p) = None"
    and "OrderBook_remove_order b r w = (res, w')"
  shows "res = Inr () \<and> levels_h w' = levels_h w \<and>
         (\<forall>b' sd. side_book sd (books_h w' b') = side_book sd (books_h w b'))"
  using assms unfolding OrderBook_remove_order_def Let_def
  by (auto simp: side_book_def)

lemma remove_order_present:
  assumes "price (orders_h w r) = Some p"
    and "map_of (side_book (side (orders_h w r) = ''buy'') (books_h w b)) (normalize_price p) = Some lv0"
    and "OrderBook_remove_order b r w = (res, w')"
  shows "res = Inr () \<and>
         (\<forall>lv. pl_orders (levels_h w' lv) =
            (if lv = lv0 then list_remove (\<lambda>x. same_order w x r) (pl_orders (levels_h w lv0))
             else pl_orders (levels_h w lv))) \<and>
         (\<forall>b' sd. side_book sd (books_h w' b') =
            (if b' = b \<and> sd = (side (orders_h w r) = ''buy'') \<and>
                list_remove (\<lambda>x. same_order w x r) (pl_orders (levels_h w lv0)) = []
             then AList.delete (normalize_price p) (side_book sd (books_h w b))
             else side_book sd (books_h w b')))"
proof (cases "list_ex (\<lambda>x. same_order w x r) (pl_orders (levels_h w lv0))")
  case True
  then show ?thesis
    using assms unfolding OrderBook_remove_order_def Let_def
    by (auto simp: side_book_def set_side_book_def PriceLevel_remove_order_def is_empty_def)
next
  case False
  then show ?thesis
    using assms list_remove_none [OF False] unfolding OrderBook_remove_order_def Let_def
    by (auto simp: side_book_def set_side_book_def PriceLevel_remove_order_def is_empty_def)
qed

lemma stored_map_of:
  assumes "Inv X w" and "stored w b sd k lv"
  shows "map_of (side_book sd (books_h w b)) k = Some lv"
  using assms(2) InvD_keys [OF assms(1), of sd b] unfolding stored_def by simp

lemma in_deleteD: "(k, v) \<in> set (AList.delete k' d) \<Longrightarrow> (k, v) \<in> set d"
  using set_delete_subset by fast

lemma not_in_delete: "(k, v) \<notin> set (AList.delete k d)"
  by (induction d) auto

text \<open>Where a resting order is found by \<open>remove_order\<close>: in its own level.\<close>

lemma resting_lookup:
  assumes i: "Inv X w" and st: "stored w b sd k lv" and r: "r \<in> set (pl_orders (levels_h w lv))"
  shows "\<exists>p. price (orders_h w r) = Some p \<and>
             map_of (side_book (side (orders_h w r) = ''buy'') (books_h w b)) (normalize_price p)
               = Some lv"
proof -
  from InvD_level [OF i st] r obtain p where
    "price (orders_h w r) = Some p" "normalize_price p = k" "(side (orders_h w r) = ''buy'') = sd"
    unfolding level_ok_def by blast
  then show ?thesis using stored_map_of [OF i st] by auto
qed

lemma remove_order_live:
  assumes i: "Inv X w" and X: "X \<subseteq> {r}"
    and t: "r \<in> X \<Longrightarrow> quantity (orders_h w r) \<le> 0 \<and>
              (\<exists>sd k lv. stored w b sd k lv \<and> r \<in> set (pl_orders (levels_h w lv)))"
    and ro: "OrderBook_remove_order b r w = (res, w')"
  shows "live w'"
proof -
  have oh: "orders_h w' = orders_h w" by (rule remove_order_orders_h [OF ro])
  have pos: "\<And>b' sd k lv x. stored w b' sd k lv \<Longrightarrow> x \<in> set (pl_orders (levels_h w lv))
      \<Longrightarrow> x \<noteq> r \<Longrightarrow> 0 < quantity (orders_h w x)"
    using InvD_level [OF i] X unfolding level_ok_def by blast
  have ne: "\<And>b' sd k lv. stored w b' sd k lv \<Longrightarrow> pl_orders (levels_h w lv) \<noteq> []"
    using InvD_level [OF i] unfolding level_ok_def by blast
  show ?thesis
  proof (cases "r \<in> X")
    case False
    then have X0: "X = {}" using X by auto
    have pos': "\<And>b' sd k lv x. stored w b' sd k lv \<Longrightarrow> x \<in> set (pl_orders (levels_h w lv))
      \<Longrightarrow> 0 < quantity (orders_h w x)"
      using InvD_level [OF i] unfolding level_ok_def X0 by blast
    show ?thesis
    proof (cases "price (orders_h w r)")
      case None
      then have "w' = w" using ro by (simp add: remove_order_no_price)
      then show ?thesis using pos' ne unfolding live_def by blast
    next
      case (Some p)
      show ?thesis
      proof (cases "map_of (side_book (side (orders_h w r) = ''buy'') (books_h w b)) (normalize_price p)")
        case None
        from remove_order_absent [OF Some None ro]
        have "levels_h w' = levels_h w" "\<And>b' sd k lv. stored w' b' sd k lv = stored w b' sd k lv"
          unfolding stored_def by auto
        then show ?thesis using pos' ne oh unfolding live_def by auto
      next
        case (Some lv0)
        let ?L' = "list_remove (\<lambda>x. same_order w x r) (pl_orders (levels_h w lv0))"
        from remove_order_present [OF \<open>price (orders_h w r) = Some p\<close> Some ro]
        have lv: "\<And>lv. pl_orders (levels_h w' lv) =
            (if lv = lv0 then ?L' else pl_orders (levels_h w lv))"
          and sb: "\<And>b' sd. side_book sd (books_h w' b') =
            (if b' = b \<and> sd = (side (orders_h w r) = ''buy'') \<and> ?L' = []
             then AList.delete (normalize_price p) (side_book sd (books_h w b))
             else side_book sd (books_h w b'))"
          by auto
        have st0: "stored w b (side (orders_h w r) = ''buy'') (normalize_price p) lv0"
          using map_of_SomeD [OF Some] unfolding stored_def .
        show ?thesis
          unfolding live_def
        proof (intro allI impI)
          fix b' sd k lv' assume st': "stored w' b' sd k lv'"
          then have st: "stored w b' sd k lv'"
            using sb [of sd b'] unfolding stored_def
            by (auto split: if_splits dest: in_deleteD)
          show "pl_orders (levels_h w' lv') \<noteq> [] \<and>
                (\<forall>x\<in>set (pl_orders (levels_h w' lv')). 0 < quantity (orders_h w' x))"
          proof (cases "lv' = lv0")
            case False
            then show ?thesis using lv [of lv'] ne [OF st] pos' [OF st] oh by simp
          next
            case True
            with st have "stored w b' sd k lv0" by simp
            from InvD_loc [OF i this st0] have
              e: "b' = b" "sd = (side (orders_h w r) = ''buy'')" "k = normalize_price p" by simp_all
            have "?L' \<noteq> []"
            proof
              assume "?L' = []"
              then have "(normalize_price p, lv0) \<in> set (AList.delete (normalize_price p)
                  (side_book (side (orders_h w r) = ''buy'') (books_h w b)))"
                using st' sb [of sd b'] True e unfolding stored_def by simp
              then show False using not_in_delete by fast
            qed
            moreover have "\<forall>x\<in>set ?L'. 0 < quantity (orders_h w x)"
              using set_list_remove [of "\<lambda>x. same_order w x r" "pl_orders (levels_h w lv0)"]
                pos' [OF st0] by blast
            ultimately show ?thesis using lv [of lv'] True oh by simp
          qed
        qed
      qed
    qed
  next
    case True
    from t [OF True] obtain sd1 k1 lv1 where
      q: "quantity (orders_h w r) \<le> 0" and st1: "stored w b sd1 k1 lv1"
      and r1: "r \<in> set (pl_orders (levels_h w lv1))"
      by blast
    from resting_lookup [OF i st1 r1] obtain p where
      pr: "price (orders_h w r) = Some p" and
      mo: "map_of (side_book (side (orders_h w r) = ''buy'') (books_h w b)) (normalize_price p)
            = Some lv1"
      by blast
    let ?L = "pl_orders (levels_h w lv1)"
    let ?L' = "list_remove (\<lambda>x. same_order w x r) ?L"
    have same: "\<And>x. x \<in> set ?L \<Longrightarrow> same_order w x r \<Longrightarrow> x = r"
    proof (rule ccontr)
      fix x assume x: "x \<in> set ?L" "same_order w x r" "x \<noteq> r"
      then have "quantity (orders_h w x) = quantity (orders_h w r)"
        unfolding same_order_def by auto
      then show False using pos [OF st1 x(1) x(3)] q by simp
    qed
    have L': "?L' = remove1 r ?L"
      using list_remove_remove1 [of ?L "\<lambda>x. same_order w x r" r, OF same] r1
      by (auto simp: same_order_def)
    have dist: "distinct ?L"
      using InvD_level [OF i st1] unfolding level_ok_def by blast
    from remove_order_present [OF pr mo ro]
    have lv: "\<And>lv. pl_orders (levels_h w' lv) =
            (if lv = lv1 then ?L' else pl_orders (levels_h w lv))"
      and sb: "\<And>b' sd. side_book sd (books_h w' b') =
            (if b' = b \<and> sd = (side (orders_h w r) = ''buy'') \<and> ?L' = []
             then AList.delete (normalize_price p) (side_book sd (books_h w b))
             else side_book sd (books_h w b'))"
      by auto
    have st0: "stored w b (side (orders_h w r) = ''buy'') (normalize_price p) lv1"
      using map_of_SomeD [OF mo] unfolding stored_def .
    show ?thesis
      unfolding live_def
    proof (intro allI impI)
      fix b' sd k lv' assume st': "stored w' b' sd k lv'"
      then have st: "stored w b' sd k lv'"
        using sb [of sd b'] unfolding stored_def
        by (auto split: if_splits dest: in_deleteD)
      show "pl_orders (levels_h w' lv') \<noteq> [] \<and>
            (\<forall>x\<in>set (pl_orders (levels_h w' lv')). 0 < quantity (orders_h w' x))"
      proof (cases "lv' = lv1")
        case False
        have "r \<notin> set (pl_orders (levels_h w lv'))"
          using InvD_own [OF i st st1 _ r1] False by blast
        then have "\<forall>x\<in>set (pl_orders (levels_h w lv')). 0 < quantity (orders_h w x)"
          using pos [OF st] by blast
        then show ?thesis using lv [of lv'] ne [OF st] oh False by simp
      next
        case True
        with st have "stored w b' sd k lv1" by simp
        from InvD_loc [OF i this st0] have
          e: "b' = b" "sd = (side (orders_h w r) = ''buy'')" "k = normalize_price p" by simp_all
        have "?L' \<noteq> []"
        proof
          assume "?L' = []"
          then have "(normalize_price p, lv1) \<in> set (AList.delete (normalize_price p)
              (side_book (side (orders_h w r) = ''buy'') (books_h w b)))"
            using st' sb [of sd b'] True e unfolding stored_def by simp
          then show False using not_in_delete by fast
        qed
        moreover have "\<forall>x\<in>set ?L'. 0 < quantity (orders_h w x)"
          unfolding L' using pos [OF st1] dist by auto
        ultimately show ?thesis using lv [of lv'] True oh by simp
      qed
    qed
  qed
qed

lemma remove_order_Inv:
  assumes "Inv X w" and "X \<subseteq> {r}"
    and "r \<in> X \<Longrightarrow> quantity (orders_h w r) \<le> 0 \<and>
              (\<exists>sd k lv. stored w b sd k lv \<and> r \<in> set (pl_orders (levels_h w lv)))"
    and "OrderBook_remove_order b r w = (res, w')"
  shows "Inv {} w'"
  using Inv_shrinks [OF assms(1) shrinks_OrderBook_remove_order [OF assms(4)]
      remove_order_live [OF assms]] .

lemma restingI: "stored w b sd k lv \<Longrightarrow> r \<in> set (pl_orders (levels_h w lv)) \<Longrightarrow> resting w r"
  unfolding resting_def by blast

text \<open>A change of orders that are not resting, or of quantities only, keeps the invariant.\<close>

lemma Inv_frame:
  assumes i: "Inv X w"
    and l: "levels_h w' = levels_h w"
    and b: "\<And>b' sd. side_book sd (books_h w' b') = side_book sd (books_h w b')"
    and nl: "next_level w' = next_level w" and no: "next_order w \<le> next_order w'"
    and s: "\<And>x. resting w x \<Longrightarrow> static (orders_h w' x) = static (orders_h w x)"
    and q: "\<And>x. resting w x \<Longrightarrow> x \<notin> Y \<Longrightarrow> 0 < quantity (orders_h w' x)"
  shows "Inv Y w'"
proof -
  have st: "\<And>b' sd k lv. stored w' b' sd k lv = stored w b' sd k lv"
    unfolding stored_def b ..
  have lo: "\<And>sd k lv b'. stored w b' sd k lv \<Longrightarrow> level_ok Y w' sd k lv"
  proof -
    fix sd k lv b' assume st0: "stored w b' sd k lv"
    note ok = InvD_level [OF i st0]
    show "level_ok Y w' sd k lv"
      unfolding level_ok_def l
    proof (intro conjI ballI)
      show "pl_orders (levels_h w lv) \<noteq> []" "distinct (pl_orders (levels_h w lv))"
        using ok unfolding level_ok_def by blast+
    next
      fix r assume r: "r \<in> set (pl_orders (levels_h w lv))"
      note rr = restingI [OF st0 r]
      show "r < next_order w'"
        using ok r no unfolding level_ok_def by fastforce
      show "r \<notin> Y \<longrightarrow> 0 < quantity (orders_h w' r)"
        using q [OF rr] by blast
      have "side (orders_h w' r) = side (orders_h w r)" "price (orders_h w' r) = price (orders_h w r)"
        using static_fields [OF s [OF rr]] by simp_all
      then show "(side (orders_h w' r) = ''buy'') = sd"
        "\<exists>p. price (orders_h w' r) = Some p \<and> normalize_price p = k"
        using ok r unfolding level_ok_def by auto
    qed
  qed
  show ?thesis
    unfolding Inv_def inv_levels_def inv_keys_def inv_loc_def inv_own_def inv_cross_def st l b nl
  proof (intro conjI allI impI)
    fix b' sd k lv assume "stored w b' sd k lv"
    then show "lv < next_level w" "level_ok Y w' sd k lv"
      using InvD_lt [OF i] lo by blast+
  next
    fix b' sd show "distinct (map fst (side_book sd (books_h w b')))"
      by (rule InvD_keys [OF i])
  next
    fix b0 sd k lv b' sd' k'
    assume "stored w b0 sd k lv" "stored w b' sd' k' lv"
    from InvD_loc [OF i this] show "b0 = b'" "sd = sd'" "k = k'" by simp_all
  next
    fix b0 sd k lv b' sd' k' lv' r
    assume "stored w b0 sd k lv" "stored w b' sd' k' lv'"
      "r \<in> set (pl_orders (levels_h w lv))" "r \<in> set (pl_orders (levels_h w lv'))"
    from InvD_own [OF i this] show "lv = lv'" .
  next
    fix b0 kb lb ka la
    assume "stored w b0 True kb lb" "stored w b0 False ka la"
    from InvD_cross [OF i this] show "kb < ka" .
  qed
qed

lemma set_delete: "set (AList.delete k d) = {p \<in> set d. fst p \<noteq> k}"
  by (auto simp: AList.delete_eq)

text \<open>Removal of a resting order whose quantity has reached zero: it is the order removed.\<close>

lemma remove_resting_effect:
  assumes i: "Inv {r} w" and q: "quantity (orders_h w r) \<le> 0"
    and st: "stored w b sd k lv" and r: "r \<in> set (pl_orders (levels_h w lv))"
    and ro: "OrderBook_remove_order b r w = (res, w')"
  shows "res = Inr () \<and>
         (\<forall>lv'. pl_orders (levels_h w' lv') =
            (if lv' = lv then remove1 r (pl_orders (levels_h w lv))
             else pl_orders (levels_h w lv'))) \<and>
         (\<forall>b' sd' k' lv'. stored w' b' sd' k' lv' \<longleftrightarrow>
            stored w b' sd' k' lv' \<and>
            \<not> (lv' = lv \<and> remove1 r (pl_orders (levels_h w lv)) = []))"
proof -
  from InvD_level [OF i st] r obtain p where
    pr: "price (orders_h w r) = Some p" and k: "normalize_price p = k"
    and sd: "(side (orders_h w r) = ''buy'') = sd"
    unfolding level_ok_def by blast
  have mo: "map_of (side_book (side (orders_h w r) = ''buy'') (books_h w b)) (normalize_price p)
            = Some lv"
    using stored_map_of [OF i st] k sd by simp
  let ?L = "pl_orders (levels_h w lv)"
  let ?L' = "list_remove (\<lambda>x. same_order w x r) ?L"
  have pos: "\<And>x. x \<in> set ?L \<Longrightarrow> x \<noteq> r \<Longrightarrow> 0 < quantity (orders_h w x)"
    using InvD_level [OF i st] unfolding level_ok_def by blast
  have same: "\<And>x. x \<in> set ?L \<Longrightarrow> same_order w x r \<Longrightarrow> x = r"
  proof (rule ccontr)
    fix x assume x: "x \<in> set ?L" "same_order w x r" "x \<noteq> r"
    then have "quantity (orders_h w x) = quantity (orders_h w r)"
      unfolding same_order_def by auto
    then show False using pos [OF x(1) x(3)] q by simp
  qed
  have L': "?L' = remove1 r ?L"
    using list_remove_remove1 [of ?L "\<lambda>x. same_order w x r" r, OF same] r
    by (auto simp: same_order_def)
  from remove_order_present [OF pr mo ro]
  have res: "res = Inr ()"
    and lv: "\<And>lv'. pl_orders (levels_h w' lv') =
            (if lv' = lv then remove1 r ?L else pl_orders (levels_h w lv'))"
    and sb: "\<And>b' sd'. side_book sd' (books_h w' b') =
            (if b' = b \<and> sd' = sd \<and> remove1 r ?L = []
             then AList.delete k (side_book sd' (books_h w b))
             else side_book sd' (books_h w b'))"
    unfolding L' k sd by auto
  have "stored w' b' sd' k' lv' \<longleftrightarrow>
          stored w b' sd' k' lv' \<and> \<not> (lv' = lv \<and> remove1 r ?L = [])" for b' sd' k' lv'
  proof (cases "b' = b \<and> sd' = sd \<and> remove1 r ?L = []")
    case True
    then have "stored w' b' sd' k' lv' \<longleftrightarrow> stored w b sd k' lv' \<and> k' \<noteq> k"
      using sb [of sd' b'] unfolding stored_def by (auto simp: set_delete)
    moreover have "stored w b sd k' lv' \<Longrightarrow> (k' \<noteq> k) = (lv' \<noteq> lv)"
      using stored_map_of [OF i st] stored_map_of [OF i, of b sd k' lv'] InvD_loc [OF i st, of b sd k']
      by auto
    ultimately show ?thesis using True by auto
  next
    case False
    then have e: "stored w' b' sd' k' lv' \<longleftrightarrow> stored w b' sd' k' lv'"
      using sb [of sd' b'] unfolding stored_def by auto
    have "stored w b' sd' k' lv \<Longrightarrow> b' = b \<and> sd' = sd"
      using InvD_loc [OF i _ st] by blast
    then show ?thesis using e False by auto
  qed
  then show ?thesis using res lv by blast
qed

lemma fill_resting_effect:
  assumes i: "Inv {} w" and a: "\<not> resting w a"
    and st: "stored w b sd k lv" and r: "r \<in> set (pl_orders (levels_h w lv))"
    and f: "fill_resting b a prc r trades w = (res, w')"
  shows "Inv {} w' \<and>
    quantity (orders_h w' a) =
      quantity (orders_h w a) - min (quantity (orders_h w a)) (quantity (orders_h w r)) \<and>
    quantity (orders_h w' r) =
      quantity (orders_h w r) - min (quantity (orders_h w a)) (quantity (orders_h w r)) \<and>
    (\<forall>x. x \<noteq> a \<longrightarrow> x \<noteq> r \<longrightarrow> orders_h w' x = orders_h w x) \<and>
    (\<exists>ts. res = Inr ts) \<and>
    (\<forall>lv'. pl_orders (levels_h w' lv') =
       (if lv' = lv \<and> quantity (orders_h w' r) \<le> 0 then remove1 r (pl_orders (levels_h w lv))
        else pl_orders (levels_h w lv'))) \<and>
    (\<forall>b' sd' k' lv'. stored w' b' sd' k' lv' \<longleftrightarrow>
       stored w b' sd' k' lv' \<and>
       \<not> (lv' = lv \<and> quantity (orders_h w' r) \<le> 0 \<and>
          remove1 r (pl_orders (levels_h w lv)) = []))"
proof -
  have ar: "a \<noteq> r" using a restingI [OF st r] by blast
  define tq where "tq = min (quantity (orders_h w a)) (quantity (orders_h w r))"
  define tr where "tr = \<lparr>trade_id = uuid_supply (tlog w), t_symbol = symbol (orders_h w a),
                t_price = prc, t_quantity = tq, aggressor_side = side (orders_h w a),
                maker_order_id = order_id (orders_h w r), taker_order_id = order_id (orders_h w a),
                t_timestamp = clock (tlog w)\<rparr>"
  define w3 where "w3 = (set_quantity r (quantity (orders_h (set_quantity a (quantity (orders_h w a) - tq) w) r) - tq)
             (set_quantity a (quantity (orders_h w a) - tq) w))
          \<lparr>tlog := snd (log_trade (symbol (orders_h w a)) prc tq (side (orders_h w a))
                  (order_id (orders_h w r)) (order_id (orders_h w a)) (tlog w))\<rparr>"
  have eq: "(res, w') = (if quantity (orders_h w3 r) \<le> 0 then
           (case OrderBook_remove_order b r w3 of
              (Inl e, w4) \<Rightarrow> (Inl e, w4)
            | (Inr u, w4) \<Rightarrow> (Inr (trades @ [tr]), w4))
         else (Inr (trades @ [tr]), w3))"
    using f unfolding fill_resting_unfold Let_def tq_def [symmetric] tr_def [symmetric]
      w3_def [symmetric]
    by simp
  have fr: "levels_h w3 = levels_h w" "books_h w3 = books_h w" "next_level w3 = next_level w"
    "next_order w3 = next_order w"
    by (simp_all add: w3_def)
  have qa: "quantity (orders_h w3 a) = quantity (orders_h w a) - tq"
    and qr: "quantity (orders_h w3 r) = quantity (orders_h w r) - tq"
    and ox: "\<And>x. x \<noteq> a \<Longrightarrow> x \<noteq> r \<Longrightarrow> orders_h w3 x = orders_h w x"
    and sx: "\<And>x. static (orders_h w3 x) = static (orders_h w x)"
    using ar by (simp_all add: w3_def set_quantity_def static_def)
  have sbk: "\<And>b' sd'. side_book sd' (books_h w3 b') = side_book sd' (books_h w b')"
    by (simp add: fr)
  have st3: "\<And>b' sd' k' lv'. stored w3 b' sd' k' lv' = stored w b' sd' k' lv'"
    unfolding stored_def fr ..
  have pos: "\<And>x. resting w x \<Longrightarrow> 0 < quantity (orders_h w x)"
    using InvD_level [OF i] unfolding resting_def level_ok_def by blast
  have i3r: "Inv {r} w3"
  proof (rule Inv_frame [OF i fr(1) sbk fr(3)])
    show "next_order w \<le> next_order w3" by (simp add: fr)
    show "\<And>x. resting w x \<Longrightarrow> static (orders_h w3 x) = static (orders_h w x)" by (rule sx)
    fix x assume x: "resting w x" "x \<notin> {r}"
    then have "x \<noteq> a" "x \<noteq> r" using a by auto
    then show "0 < quantity (orders_h w3 x)" using ox pos [OF x(1)] by simp
  qed
  show ?thesis
  proof (cases "quantity (orders_h w3 r) \<le> 0")
    case True
    obtain res4 w4 where ro: "OrderBook_remove_order b r w3 = (res4, w4)"
      by (cases "OrderBook_remove_order b r w3")
    have st': "stored w3 b sd k lv" using st st3 by simp
    have r': "r \<in> set (pl_orders (levels_h w3 lv))" using r fr by simp
    from remove_resting_effect [OF i3r True st' r' ro]
    have res4: "res4 = Inr ()"
      and lv: "\<And>lv'. pl_orders (levels_h w4 lv') =
            (if lv' = lv then remove1 r (pl_orders (levels_h w lv))
             else pl_orders (levels_h w lv'))"
      and sb: "\<And>b' sd' k' lv'. stored w4 b' sd' k' lv' \<longleftrightarrow>
            stored w b' sd' k' lv' \<and>
            \<not> (lv' = lv \<and> remove1 r (pl_orders (levels_h w lv)) = [])"
      unfolding fr st3 by blast+
    have w': "w' = w4" "res = Inr (trades @ [tr])"
      using eq True ro res4 by simp_all
    have oh: "orders_h w4 = orders_h w3" by (rule remove_order_orders_h [OF ro])
    have "Inv {} w4"
      by (rule remove_order_Inv [OF i3r _ _ ro]) (use True st' r' in auto)
    then show ?thesis
      using True lv sb qa qr ox unfolding w' oh tq_def by simp
  next
    case False
    then have w': "w' = w3" "res = Inr (trades @ [tr])"
      using eq by simp_all
    have "Inv {} w3"
    proof (rule Inv_frame [OF i fr(1) sbk fr(3)])
      show "next_order w \<le> next_order w3" by (simp add: fr)
      show "\<And>x. resting w x \<Longrightarrow> static (orders_h w3 x) = static (orders_h w x)" by (rule sx)
      fix x assume x: "resting w x" "x \<notin> {}"
      then have xa: "x \<noteq> a" using a by auto
      show "0 < quantity (orders_h w3 x)"
        using False ox [OF xa] pos [OF x(1)] by (cases "x = r") auto
    qed
    then show ?thesis
      using False st3 qa qr ox fr unfolding w' tq_def by simp
  qed
qed

lemma match_level_done:
  "quantity (orders_h w a) \<le> 0 \<Longrightarrow> match_level b a prc rs trades w = (Inr trades, w)"
  by (cases rs) auto

lemma fill_resting_not_resting:
  "fill_resting b a prc r trades w = (res, w') \<Longrightarrow> \<not> resting w x \<Longrightarrow> \<not> resting w' x"
  using shrinks_resting [OF fill_resting_shrinks] by blast

text \<open>
  The inner loop on a well-formed book: the invariant is kept, only the incoming order and
  the orders of the level change, an order is touched only after those before it are
  used up, and the loop ends with quantity left only when the level has been emptied.
\<close>

lemma match_level_Inv:
  assumes "Inv {} w" and "\<not> resting w a" and "distinct rs"
    and "set (pl_orders (levels_h w lv)) = set rs"
    and "rs \<noteq> [] \<Longrightarrow> stored w b sd k lv"
    and "match_level b a prc rs trades w = (res, w')"
  shows "Inv {} w' \<and>
         (\<forall>ts. res = Inr ts \<longrightarrow> 0 < quantity (orders_h w' a) \<longrightarrow>
            pl_orders (levels_h w' lv) = []) \<and>
         (\<forall>x. x \<noteq> a \<longrightarrow> x \<notin> set rs \<longrightarrow> orders_h w' x = orders_h w x) \<and>
         (\<forall>xs r1 ys r2. rs = xs @ r1 # ys \<longrightarrow> r2 \<in> set ys \<longrightarrow>
            quantity (orders_h w' r2) \<noteq> quantity (orders_h w r2) \<longrightarrow>
            quantity (orders_h w' r1) \<le> 0)"
  using assms
proof (induction rs arbitrary: trades w)
  case Nil
  then show ?case by auto
next
  case (Cons r rs)
  let ?L = "pl_orders (levels_h w lv)"
  have st: "stored w b sd k lv" using Cons.prems(5) by simp
  have rL: "r \<in> set ?L" using Cons.prems(4) by simp
  have dL: "distinct ?L"
    using InvD_level [OF Cons.prems(1) st] unfolding level_ok_def by blast
  have aL: "a \<notin> set ?L" using Cons.prems(2) restingI [OF st] by blast
  show ?case
  proof (cases "quantity (orders_h w a) \<le> 0")
    case True
    with Cons.prems(6) have "w' = w" by auto
    then show ?thesis using Cons.prems(1) True by auto
  next
    case False
    obtain res1 w1 where f: "fill_resting b a prc r trades w = (res1, w1)"
      by (cases "fill_resting b a prc r trades w")
    from fill_resting_effect [OF Cons.prems(1,2) st rL f] obtain ts1 where
      i1: "Inv {} w1" and
      qa: "quantity (orders_h w1 a) =
        quantity (orders_h w a) - min (quantity (orders_h w a)) (quantity (orders_h w r))" and
      qr: "quantity (orders_h w1 r) =
        quantity (orders_h w r) - min (quantity (orders_h w a)) (quantity (orders_h w r))" and
      ox: "\<And>x. x \<noteq> a \<Longrightarrow> x \<noteq> r \<Longrightarrow> orders_h w1 x = orders_h w x" and
      r1: "res1 = Inr ts1" and
      lv1: "\<And>lv'. pl_orders (levels_h w1 lv') =
         (if lv' = lv \<and> quantity (orders_h w1 r) \<le> 0 then remove1 r ?L
          else pl_orders (levels_h w lv'))" and
      st1: "\<And>b' sd' k' lv'. stored w1 b' sd' k' lv' \<longleftrightarrow>
         stored w b' sd' k' lv' \<and>
         \<not> (lv' = lv \<and> quantity (orders_h w1 r) \<le> 0 \<and> remove1 r ?L = [])"
      by blast
    have m: "match_level b a prc rs ts1 w1 = (res, w')"
      using Cons.prems(6) False f r1 by simp
    have a1: "\<not> resting w1 a" by (rule fill_resting_not_resting [OF f Cons.prems(2)])
    have unch: "\<And>x. x \<in> set rs \<Longrightarrow> quantity (orders_h w1 x) = quantity (orders_h w x)"
      using ox aL Cons.prems(3,4) by (metis distinct.simps(2) list.set_intros(2))
    show ?thesis
    proof (cases "quantity (orders_h w1 r) \<le> 0")
      case False
      then have "quantity (orders_h w1 a) \<le> 0" using qa qr by (simp add: min_def split: if_splits)
      from match_level_done [OF this] m have e: "res = Inr ts1" "w' = w1" by simp_all
      show ?thesis
        unfolding e
      proof (intro conjI allI impI)
        show "Inv {} w1" by (rule i1)
        show "pl_orders (levels_h w1 lv) = []" if "0 < quantity (orders_h w1 a)"
          using that \<open>quantity (orders_h w1 a) \<le> 0\<close> by simp
        show "orders_h w1 x = orders_h w x" if "x \<noteq> a" "x \<notin> set (r # rs)" for x
          using that ox by simp
        show "quantity (orders_h w1 r1) \<le> 0"
          if "r # rs = xs @ r1 # ys" "r2 \<in> set ys"
            "quantity (orders_h w1 r2) \<noteq> quantity (orders_h w r2)" for xs r1 ys r2
        proof -
          from that(1,2) have "r2 \<in> set rs"
            using Cons.prems(3) by (cases xs) auto
          then show ?thesis using unch that(3) by blast
        qed
      qed
    next
      case True
      have L1: "pl_orders (levels_h w1 lv) = remove1 r ?L" using lv1 True by simp
      have s1: "set (pl_orders (levels_h w1 lv)) = set rs"
        unfolding L1 using dL Cons.prems(3,4) by auto
      have st1': "rs \<noteq> [] \<Longrightarrow> stored w1 b sd k lv"
        using st1 st s1 L1 by (metis set_empty)
      have d1: "distinct rs" using Cons.prems(3) by simp
      from Cons.IH [OF i1 a1 d1 s1 st1' m] have
        iw: "Inv {} w'" and
        em: "\<forall>ts. res = Inr ts \<longrightarrow> 0 < quantity (orders_h w' a) \<longrightarrow>
            pl_orders (levels_h w' lv) = []" and
        fr: "\<And>x. x \<noteq> a \<Longrightarrow> x \<notin> set rs \<Longrightarrow> orders_h w' x = orders_h w1 x" and
        ff: "\<And>xs r1 ys r2. rs = xs @ r1 # ys \<Longrightarrow> r2 \<in> set ys \<Longrightarrow>
            quantity (orders_h w' r2) \<noteq> quantity (orders_h w1 r2) \<Longrightarrow>
            quantity (orders_h w' r1) \<le> 0"
        by blast+
      have ra: "r \<noteq> a" using aL rL by blast
      have rr: "r \<notin> set rs" using Cons.prems(3) by simp
      show ?thesis
      proof (intro conjI allI impI)
        show "Inv {} w'" by (rule iw)
        show "pl_orders (levels_h w' lv) = []"
          if "res = Inr ts" "0 < quantity (orders_h w' a)" for ts
          using em that by blast
        show "orders_h w' x = orders_h w x" if "x \<noteq> a" "x \<notin> set (r # rs)" for x
          using that fr [of x] ox [of x] by simp
        show "quantity (orders_h w' r1) \<le> 0"
          if h: "r # rs = xs @ r1 # ys" "r2 \<in> set ys"
            "quantity (orders_h w' r2) \<noteq> quantity (orders_h w r2)" for xs r1 ys r2
        proof (cases xs)
          case Nil
          with h(1) have "r1 = r" by simp
          then show ?thesis using fr [OF ra rr] True by simp
        next
          case (Cons x xs')
          with h(1) have e: "rs = xs' @ r1 # ys" by simp
          then have "r2 \<in> set rs" using h(2) by simp
          then have "quantity (orders_h w' r2) \<noteq> quantity (orders_h w1 r2)"
            using unch h(3) by simp
          from ff [OF e h(2) this] show ?thesis .
        qed
      qed
    qed
  qed
qed

lemma stored_opposite:
  "map_of (opposite_book is_buy (books_h w b)) k = Some lv \<Longrightarrow> stored w b (\<not> is_buy) k lv"
  unfolding stored_def opposite_book_def by (rule map_of_SomeD)

lemma stored_unique:
  assumes "Inv X w" and "stored w b sd k lv" and "stored w b sd k lv'"
  shows "lv = lv'"
  using stored_map_of [OF assms(1,2)] stored_map_of [OF assms(1,3)] by simp

text \<open>
  One level of a well-formed book: the visit returns only when the incoming order has
  nothing left; when the level is emptied, the second deletion of its key raises.
\<close>

lemma visit_level_Inv:
  assumes i: "Inv {} w" and a: "\<not> resting w a"
    and v: "visit_level b a is_buy prc trades w = (res, w')"
  shows "Inv {} w' \<and>
         (\<forall>ts. res = Inr ts \<longrightarrow> quantity (orders_h w' a) \<le> 0) \<and>
         (\<forall>x. x \<noteq> a \<longrightarrow>
            (\<forall>lv. stored w b (\<not> is_buy) prc lv \<longrightarrow> x \<notin> set (pl_orders (levels_h w lv))) \<longrightarrow>
            orders_h w' x = orders_h w x) \<and>
         (\<forall>lv xs r1 ys r2. stored w b (\<not> is_buy) prc lv \<longrightarrow>
            pl_orders (levels_h w lv) = xs @ r1 # ys \<longrightarrow> r2 \<in> set ys \<longrightarrow>
            quantity (orders_h w' r2) \<noteq> quantity (orders_h w r2) \<longrightarrow>
            quantity (orders_h w' r1) \<le> 0)"
proof (cases "map_of (opposite_book is_buy (books_h w b)) prc")
  case None
  with v have "w' = w" "res = Inl KeyError" by (auto simp: visit_level_def)
  then show ?thesis using i by simp
next
  case (Some lv)
  note st = stored_opposite [OF Some]
  let ?L = "pl_orders (levels_h w lv)"
  have dL: "distinct ?L" and nL: "?L \<noteq> []"
    using InvD_level [OF i st] unfolding level_ok_def by blast+
  obtain res1 w1 where m: "match_level b a prc ?L trades w = (res1, w1)"
    by (cases "match_level b a prc ?L trades w")
  from match_level_Inv [OF i a dL refl st m] have
    i1: "Inv {} w1" and
    em: "\<And>ts. res1 = Inr ts \<Longrightarrow> 0 < quantity (orders_h w1 a) \<Longrightarrow>
            pl_orders (levels_h w1 lv) = []" and
    fr: "\<And>x. x \<noteq> a \<Longrightarrow> x \<notin> set ?L \<Longrightarrow> orders_h w1 x = orders_h w x" and
    ff: "\<And>xs r1 ys r2. ?L = xs @ r1 # ys \<Longrightarrow> r2 \<in> set ys \<Longrightarrow>
            quantity (orders_h w1 r2) \<noteq> quantity (orders_h w r2) \<Longrightarrow>
            quantity (orders_h w1 r1) \<le> 0"
    by blast+
  have s1: "shrinks w w1" using match_level_fills [OF m] by blast
  have gone: "map_of (opposite_book is_buy (books_h w1 b)) prc = None"
    if e: "pl_orders (levels_h w1 lv) = []"
  proof (rule ccontr)
    assume "map_of (opposite_book is_buy (books_h w1 b)) prc \<noteq> None"
    then obtain lv' where "map_of (opposite_book is_buy (books_h w1 b)) prc = Some lv'"
      by blast
    note st1 = stored_opposite [OF this]
    from stored_unique [OF i st shrinks_stored [OF s1 st1]] have "lv' = lv" by simp
    with InvD_level [OF i1 st1] e show False unfolding level_ok_def by simp
  qed
  have w': "w' = w1" and r: "\<And>ts. res = Inr ts \<Longrightarrow> quantity (orders_h w1 a) \<le> 0"
  proof -
    show "w' = w1"
      using v Some m gone unfolding visit_level_def is_empty_def
      by (auto split: sum.splits if_splits option.splits)
    fix ts assume "res = Inr ts"
    then have "res1 = Inr ts" "pl_orders (levels_h w1 lv) \<noteq> []"
      using v Some m gone unfolding visit_level_def is_empty_def
      by (auto split: sum.splits if_splits option.splits)
    then show "quantity (orders_h w1 a) \<le> 0"
      using em [of ts] by force
  qed
  have only: "\<And>lv'. stored w b (\<not> is_buy) prc lv' \<Longrightarrow> lv' = lv"
    using stored_unique [OF i st] by blast
  show ?thesis
    unfolding w'
  proof (intro conjI allI impI)
    show "Inv {} w1" by (rule i1)
    show "quantity (orders_h w1 a) \<le> 0" if "res = Inr ts" for ts
      using r that by blast
    show "orders_h w1 x = orders_h w x"
      if "x \<noteq> a" "\<forall>lv. stored w b (\<not> is_buy) prc lv \<longrightarrow> x \<notin> set (pl_orders (levels_h w lv))"
      for x
      using fr that st by blast
    show "quantity (orders_h w1 r1) \<le> 0"
      if "stored w b (\<not> is_buy) prc lv'" "pl_orders (levels_h w lv') = xs @ r1 # ys"
        "r2 \<in> set ys" "quantity (orders_h w1 r2) \<noteq> quantity (orders_h w r2)"
      for lv' xs r1 ys r2
      using ff [of xs r1 ys r2] that only [OF that(1)] by simp
  qed
qed

lemma match_levels_Inv:
  assumes i: "Inv {} w" and a: "\<not> resting w a"
    and m: "match_levels b a market is_buy ps trades w = (res, w')"
  shows "Inv {} w' \<and>
         (\<forall>ts. res = Inr ts \<longrightarrow> 0 < quantity (orders_h w' a) \<longrightarrow>
            w' = w \<and> (ps = [] \<or> price_stop market is_buy (hd ps) (orders_h w a) = Inr True)) \<and>
         (\<forall>x. x \<noteq> a \<longrightarrow>
            (ps = [] \<or> (\<forall>lv. stored w b (\<not> is_buy) (hd ps) lv \<longrightarrow>
                           x \<notin> set (pl_orders (levels_h w lv)))) \<longrightarrow>
            orders_h w' x = orders_h w x) \<and>
         (\<forall>lv xs r1 ys r2. ps \<noteq> [] \<longrightarrow> stored w b (\<not> is_buy) (hd ps) lv \<longrightarrow>
            pl_orders (levels_h w lv) = xs @ r1 # ys \<longrightarrow> r2 \<in> set ys \<longrightarrow>
            quantity (orders_h w' r2) \<noteq> quantity (orders_h w r2) \<longrightarrow>
            quantity (orders_h w' r1) \<le> 0)"
proof (cases ps)
  case Nil
  with m have "w' = w" by simp
  then show ?thesis using i Nil by simp
next
  case (Cons prc ps')
  show ?thesis
  proof (cases "price_stop market is_buy prc (orders_h w a) = Inr False")
    case False
    with m Cons have e: "w' = w" "\<forall>ts. res = Inr ts \<longrightarrow>
        price_stop market is_buy prc (orders_h w a) = Inr True"
      by (auto split: sum.splits bool.splits)
    then show ?thesis using i Cons by simp
  next
    case True
    obtain res1 w1 where v: "visit_level b a is_buy prc trades w = (res1, w1)"
      by (cases "visit_level b a is_buy prc trades w")
    from visit_level_Inv [OF i a v] have
      i1: "Inv {} w1" and
      q1: "\<And>ts. res1 = Inr ts \<Longrightarrow> quantity (orders_h w1 a) \<le> 0" and
      rest: "(\<forall>x. x \<noteq> a \<longrightarrow>
            (\<forall>lv. stored w b (\<not> is_buy) prc lv \<longrightarrow> x \<notin> set (pl_orders (levels_h w lv))) \<longrightarrow>
            orders_h w1 x = orders_h w x) \<and>
         (\<forall>lv xs r1 ys r2. stored w b (\<not> is_buy) prc lv \<longrightarrow>
            pl_orders (levels_h w lv) = xs @ r1 # ys \<longrightarrow> r2 \<in> set ys \<longrightarrow>
            quantity (orders_h w1 r2) \<noteq> quantity (orders_h w r2) \<longrightarrow>
            quantity (orders_h w1 r1) \<le> 0)"
      by blast+
    have e: "w' = w1" "res = res1"
      using m Cons True v q1 by (auto split: sum.splits)
    show ?thesis
      unfolding e using i1 q1 rest Cons by force
  qed
qed

lemma before_split: "before x y xs \<Longrightarrow> \<exists>us vs. xs = us @ x # vs \<and> y \<in> set vs"
proof (induction xs)
  case Nil
  then show ?case by simp
next
  case (Cons z zs)
  show ?case
  proof (cases "z = x")
    case True
    with Cons.prems show ?thesis by (intro exI [of _ "[]"] exI [of _ zs]) simp
  next
    case False
    with Cons obtain us vs where "zs = us @ x # vs" "y \<in> set vs" by auto
    then show ?thesis by (intro exI [of _ "z # us"] exI [of _ vs]) simp
  qed
qed

lemma hd_sort_le:
  fixes x :: "'a::linorder"
  assumes "x \<in> set xs"
  shows "hd (sort xs) \<le> x"
proof -
  from assms have "x \<in> set (sort xs)" by simp
  moreover have "sorted (sort xs)" by simp
  ultimately show ?thesis by (cases "sort xs") auto
qed

lemma le_hd_rev_sort:
  fixes x :: "'a::linorder"
  assumes "x \<in> set xs"
  shows "x \<le> hd (rev (sort xs))"
proof -
  have ne: "sort xs \<noteq> []"
  proof
    assume "sort xs = []"
    then have "set (sort xs) = {}" by simp
    then show False using assms by simp
  qed
  have le: "sorted ys \<Longrightarrow> y \<in> set ys \<Longrightarrow> y \<le> last ys" for y :: 'a and ys
    by (induction ys) auto
  have "x \<le> last (sort xs)"
    by (rule le) (use assms in simp_all)
  then show ?thesis using ne by (simp add: hd_rev)
qed

lemma price_stop_True:
  assumes "price_stop market is_buy prc ord = Inr True"
  shows "\<exists>lmt. price ord = Some lmt \<and>
           (if is_buy then normalize_price lmt < prc else prc < normalize_price lmt)"
  using assms by (auto simp: price_stop_def split: if_splits option.splits)

text \<open>
  The whole pass on a well-formed book. It keeps the invariant. It returns with quantity
  left only when it has changed nothing, and every opposite key is then beyond the
  limit. Among the opposite orders, one is touched only after those with priority over
  it (earlier in its level, or in a level with a strictly better key) are used up.
\<close>

lemma match_order_Inv:
  assumes i: "Inv {} w" and a: "\<not> resting w a"
    and m: "match_order b a market w = (res, w')"
    and ib: "is_buy = (side (orders_h w a) = ''buy'')"
  shows "Inv {} w' \<and>
    (\<forall>ts. res = Inr ts \<longrightarrow> 0 < quantity (orders_h w' a) \<longrightarrow>
       w' = w \<and>
       (\<forall>k lv. stored w b (\<not> is_buy) k lv \<longrightarrow>
          (\<exists>lmt. price (orders_h w a) = Some lmt \<and>
             (if is_buy then normalize_price lmt < k else k < normalize_price lmt)))) \<and>
    (\<forall>x. x \<noteq> a \<longrightarrow>
       (\<forall>k lv. stored w b (\<not> is_buy) k lv \<longrightarrow> x \<notin> set (pl_orders (levels_h w lv))) \<longrightarrow>
       orders_h w' x = orders_h w x) \<and>
    (\<forall>k1 lv1 k2 lv2 r1 r2.
       stored w b (\<not> is_buy) k1 lv1 \<longrightarrow> stored w b (\<not> is_buy) k2 lv2 \<longrightarrow>
       r1 \<in> set (pl_orders (levels_h w lv1)) \<longrightarrow> r2 \<in> set (pl_orders (levels_h w lv2)) \<longrightarrow>
       (lv1 = lv2 \<and> before r1 r2 (pl_orders (levels_h w lv1)) \<or>
        (if is_buy then k1 < k2 else k2 < k1)) \<longrightarrow>
       quantity (orders_h w' r2) \<noteq> quantity (orders_h w r2) \<longrightarrow>
       quantity (orders_h w' r1) \<le> 0)"
proof -
  define d where "d = opposite_book is_buy (books_h w b)"
  define ps where "ps = (if is_buy then sort (map fst d) else rev (sort (map fst d)))"
  have ml: "match_levels b a market is_buy ps [] w = (res, w')"
    using m unfolding match_order_def Let_def ps_def d_def ib by simp
  have kin: "k \<in> set (map fst d)" if "stored w b (\<not> is_buy) k lv" for k lv
    using that unfolding stored_def d_def opposite_book_def by force
  have ne: "ps \<noteq> []" if "stored w b (\<not> is_buy) k lv" for k lv
  proof
    assume "ps = []"
    then have "set (map fst d) = {}"
      unfolding ps_def by (metis set_empty set_rev set_sort)
    then show False using kin [OF that] by simp
  qed
  have best: "if is_buy then hd ps \<le> k else k \<le> hd ps"
    if "stored w b (\<not> is_buy) k lv" for k lv
    using hd_sort_le [OF kin [OF that]] le_hd_rev_sort [OF kin [OF that]]
    unfolding ps_def by simp
  from match_levels_Inv [OF i a ml] have
    iw: "Inv {} w'" and
    stop: "\<And>ts. res = Inr ts \<Longrightarrow> 0 < quantity (orders_h w' a) \<Longrightarrow>
            w' = w \<and> (ps = [] \<or> price_stop market is_buy (hd ps) (orders_h w a) = Inr True)" and
    fr: "\<And>x. x \<noteq> a \<Longrightarrow>
            (ps = [] \<or> (\<forall>lv. stored w b (\<not> is_buy) (hd ps) lv \<longrightarrow>
                           x \<notin> set (pl_orders (levels_h w lv)))) \<Longrightarrow>
            orders_h w' x = orders_h w x" and
    ff: "\<And>lv xs r1 ys r2. ps \<noteq> [] \<Longrightarrow> stored w b (\<not> is_buy) (hd ps) lv \<Longrightarrow>
            pl_orders (levels_h w lv) = xs @ r1 # ys \<Longrightarrow> r2 \<in> set ys \<Longrightarrow>
            quantity (orders_h w' r2) \<noteq> quantity (orders_h w r2) \<Longrightarrow>
            quantity (orders_h w' r1) \<le> 0"
    by blast+
  show ?thesis
  proof (intro conjI allI impI)
    show "Inv {} w'" by (rule iw)
  next
    fix ts assume h: "res = Inr ts" "0 < quantity (orders_h w' a)"
    from stop [OF h] show "w' = w" by simp
    fix k lv assume st: "stored w b (\<not> is_buy) k lv"
    from stop [OF h] ne [OF st]
    have "price_stop market is_buy (hd ps) (orders_h w a) = Inr True" by simp
    from price_stop_True [OF this] obtain lmt where
      "price (orders_h w a) = Some lmt"
      "if is_buy then normalize_price lmt < hd ps else hd ps < normalize_price lmt"
      by blast
    then show "\<exists>lmt. price (orders_h w a) = Some lmt \<and>
             (if is_buy then normalize_price lmt < k else k < normalize_price lmt)"
      using best [OF st] by (auto split: if_splits)
  next
    fix x assume "x \<noteq> a"
      "\<forall>k lv. stored w b (\<not> is_buy) k lv \<longrightarrow> x \<notin> set (pl_orders (levels_h w lv))"
    then show "orders_h w' x = orders_h w x" using fr [of x] by blast
  next
    fix k1 lv1 k2 lv2 r1 r2
    assume st1: "stored w b (\<not> is_buy) k1 lv1" and st2: "stored w b (\<not> is_buy) k2 lv2"
      and r1: "r1 \<in> set (pl_orders (levels_h w lv1))"
      and r2: "r2 \<in> set (pl_orders (levels_h w lv2))"
      and pri: "lv1 = lv2 \<and> before r1 r2 (pl_orders (levels_h w lv1)) \<or>
        (if is_buy then k1 < k2 else k2 < k1)"
      and ch: "quantity (orders_h w' r2) \<noteq> quantity (orders_h w r2)"
    have r2a: "r2 \<noteq> a" using a restingI [OF st2 r2] by blast
    from ch fr [OF r2a] obtain lv where
      sth: "stored w b (\<not> is_buy) (hd ps) lv" and r2h: "r2 \<in> set (pl_orders (levels_h w lv))"
      by force
    have lv: "lv = lv2" by (rule InvD_own [OF i sth st2 r2h r2])
    have k2: "k2 = hd ps" using InvD_loc [OF i st2] sth lv by blast
    from pri show "quantity (orders_h w' r1) \<le> 0"
    proof
      assume "lv1 = lv2 \<and> before r1 r2 (pl_orders (levels_h w lv1))"
      then obtain us vs where "pl_orders (levels_h w lv) = us @ r1 # vs" "r2 \<in> set vs"
        using before_split lv by fastforce
      from ff [OF ne [OF sth] sth this ch] show ?thesis .
    next
      assume "if is_buy then k1 < k2 else k2 < k1"
      then show ?thesis using best [OF st1] k2 by (auto split: if_splits)
    qed
  qed
qed

text \<open>
  Appending a new order with quantity left to the level of its normalised price and side
  (an old level, or a new one stored under a key that was absent) keeps the invariant
  when the key does not reach the opposite side.
\<close>

lemma Inv_insert:
  assumes i: "Inv {} w" and a: "\<not> resting w a" and al: "a < next_order w"
    and q: "0 < quantity (orders_h w a)"
    and pr: "price (orders_h w a) = Some p" and k: "k = normalize_price p"
    and sd: "sd = (side (orders_h w a) = ''buy'')"
    and oh: "orders_h w' = orders_h w" and no: "next_order w' = next_order w"
    and nl: "next_level w \<le> next_level w'" and lvb: "lv < next_level w'"
    and old: "stored w b sd k lv \<and> L0 = pl_orders (levels_h w lv) \<or>
              next_level w \<le> lv \<and> L0 = []"
    and L: "pl_orders (levels_h w' lv) = L0 @ [a]"
    and others: "\<And>l. l \<noteq> lv \<Longrightarrow> pl_orders (levels_h w' l) = pl_orders (levels_h w l)"
    and st: "\<And>b' sd' k' l. stored w' b' sd' k' l \<longleftrightarrow>
               stored w b' sd' k' l \<or> (b' = b \<and> sd' = sd \<and> k' = k \<and> l = lv)"
    and keys: "\<And>b' sd'. distinct (map fst (side_book sd' (books_h w' b')))"
    and cross: "\<And>k' l. stored w b (\<not> sd) k' l \<Longrightarrow> (if sd then k < k' else k' < k)"
  shows "Inv {} w'"
proof -
  have F1: "b' = b \<and> sd' = sd \<and> k' = k" if "stored w b' sd' k' lv" for b' sd' k'
    using old
  proof
    assume "stored w b sd k lv \<and> L0 = pl_orders (levels_h w lv)"
    then show ?thesis using InvD_loc [OF i that, of b sd k] by simp
  next
    assume "next_level w \<le> lv \<and> L0 = []"
    then show ?thesis using InvD_lt [OF i that] by simp
  qed
  have F1': "b' = b \<and> sd' = sd \<and> k' = k" if "stored w' b' sd' k' lv" for b' sd' k'
    using that st F1 by blast
  have F2: "stored w b sd k lv \<and> x \<in> set (pl_orders (levels_h w lv))" if "x \<in> set L0" for x
    using old that by auto
  have F3: "distinct L0" "a \<notin> set L0"
  proof -
    show "distinct L0"
      using old InvD_level [OF i, of b sd k lv] unfolding level_ok_def by auto
    show "a \<notin> set L0" using F2 a restingI by blast
  qed
  have F4: "stored w b' sd' k' l" if "stored w' b' sd' k' l" "l \<noteq> lv" for b' sd' k' l
    using that st by blast
  have okold: "level_ok {} w' sd' k' l" if s: "stored w b' sd' k' l" and ne: "l \<noteq> lv"
    for b' sd' k' l
    using InvD_level [OF i s] unfolding level_ok_def others [OF ne] oh no by simp
  have oknew: "level_ok {} w' sd k lv"
  proof -
    have each: "r < next_order w \<and> 0 < quantity (orders_h w r) \<and>
        (side (orders_h w r) = ''buy'') = sd \<and>
        (\<exists>p. price (orders_h w r) = Some p \<and> normalize_price p = k)"
      if "r \<in> set (L0 @ [a])" for r
    proof (cases "r = a")
      case True
      then show ?thesis using al q sd pr k by simp
    next
      case False
      with that have "r \<in> set L0" by simp
      from F2 [OF this] InvD_level [OF i, of b sd k lv]
      show ?thesis unfolding level_ok_def by auto
    qed
    show ?thesis
      unfolding level_ok_def L oh no using F3 each by auto
  qed
  have mem: "r \<in> set (pl_orders (levels_h w l)) \<and> stored w b' sd' k' l"
    if "stored w' b' sd' k' l" "r \<in> set (pl_orders (levels_h w' l))" "r \<noteq> a" for b' sd' k' l r
  proof (cases "l = lv")
    case True
    with that L have "r \<in> set L0" by simp
    from F2 [OF this] F1' that(1) True show ?thesis by blast
  next
    case False
    then show ?thesis using that F4 others by simp
  qed
  have amem: "l = lv" if "stored w' b' sd' k' l" "a \<in> set (pl_orders (levels_h w' l))"
    for b' sd' k' l
  proof (rule ccontr)
    assume ne: "l \<noteq> lv"
    then have "stored w b' sd' k' l" "a \<in> set (pl_orders (levels_h w l))"
      using that F4 others by simp_all
    then show False using a restingI by blast
  qed
  show ?thesis
    unfolding Inv_def inv_levels_def inv_keys_def inv_loc_def inv_own_def inv_cross_def
  proof (intro conjI allI impI)
    fix b' sd' k' l assume s: "stored w' b' sd' k' l"
    show "l < next_level w'"
      using lvb F4 [OF s] InvD_lt [OF i] nl by (cases "l = lv") fastforce+
    show "level_ok {} w' sd' k' l"
    proof (cases "l = lv")
      case True
      then show ?thesis using oknew F1' s by blast
    next
      case False
      then show ?thesis using okold F4 [OF s] by blast
    qed
  next
    fix b' sd' show "distinct (map fst (side_book sd' (books_h w' b')))" by (rule keys)
  next
    fix b1 sd1 k1 l b2 sd2 k2
    assume s: "stored w' b1 sd1 k1 l" "stored w' b2 sd2 k2 l"
    have "b1 = b2 \<and> sd1 = sd2 \<and> k1 = k2"
    proof (cases "l = lv")
      case True
      then show ?thesis using F1' s by blast
    next
      case False
      then show ?thesis using InvD_loc [OF i F4 [OF s(1) False] F4 [OF s(2) False]] by simp
    qed
    then show "b1 = b2" "sd1 = sd2" "k1 = k2" by simp_all
  next
    fix b1 sd1 k1 l b2 sd2 k2 l' r
    assume s: "stored w' b1 sd1 k1 l" "stored w' b2 sd2 k2 l'"
      and r: "r \<in> set (pl_orders (levels_h w' l))" "r \<in> set (pl_orders (levels_h w' l'))"
    show "l = l'"
    proof (cases "r = a")
      case True
      then show ?thesis using amem s r by blast
    next
      case False
      from mem [OF s(1) r(1) False] mem [OF s(2) r(2) False]
      show ?thesis using InvD_own [OF i] by blast
    qed
  next
    fix b0 kb lb ka la
    assume s: "stored w' b0 True kb lb" "stored w' b0 False ka la"
    from s(1) st consider (bo) "stored w b0 True kb lb"
      | (bn) "b0 = b" "sd" "kb = k" "lb = lv" by blast
    then show "kb < ka"
    proof cases
      case bo
      from s(2) st consider (ao) "stored w b0 False ka la"
        | (an) "b0 = b" "\<not> sd" "ka = k" "la = lv" by blast
      then show ?thesis
      proof cases
        case ao
        then show ?thesis using InvD_cross [OF i bo] by simp
      next
        case an
        then show ?thesis using cross [of kb lb] bo by simp
      qed
    next
      case bn
      with s(2) st have "stored w b False ka la" by blast
      then show ?thesis using cross [of ka la] bn by simp
    qed
  qed
qed

lemma update_absent: "map_of d k = None \<Longrightarrow> AList.update k v d = d @ [(k, v)]"
  by (induction d) (auto split: if_splits)

lemma side_book_set_side_book:
  "side_book sd' (books_h (set_side_book sd b d w) b') =
     (if b' = b \<and> sd' = sd then d else side_book sd' (books_h w b'))"
  by (auto simp: side_book_def set_side_book_def)

text \<open>What \<open>OrderBook.add_order\<close> does, case by case.\<close>

lemma add_order_no_price:
  assumes "price (orders_h w a) = None" and "OrderBook_add_order b a w = (res, w')"
  shows "res = Inl TypeError \<and> orders_h w' = orders_h w \<and> levels_h w' = levels_h w \<and>
         next_order w' = next_order w \<and> next_level w' = next_level w \<and>
         (\<forall>b' sd. side_book sd (books_h w' b') = side_book sd (books_h w b'))"
  using assms unfolding OrderBook_add_order_def Let_def
  by (auto simp: side_book_def)

lemma add_order_old_level:
  assumes "price (orders_h w a) = Some p"
    and "map_of (side_book (side (orders_h w a) = ''buy'') (books_h w b)) (normalize_price p)
           = Some lv"
    and "OrderBook_add_order b a w = (res, w')"
  shows "res = Inr () \<and> orders_h w' = orders_h w \<and>
         next_order w' = next_order w \<and> next_level w' = next_level w \<and>
         (\<forall>b' sd. side_book sd (books_h w' b') = side_book sd (books_h w b')) \<and>
         (\<forall>l. pl_orders (levels_h w' l) =
            (if l = lv then pl_orders (levels_h w l) @ [a] else pl_orders (levels_h w l)))"
  using assms unfolding OrderBook_add_order_def Let_def
  by (cases "side (orders_h w a) = ''buy''")
     (auto simp: side_book_def PriceLevel_add_order_def)

lemma add_order_new_level:
  assumes "price (orders_h w a) = Some p"
    and "map_of (side_book (side (orders_h w a) = ''buy'') (books_h w b)) (normalize_price p)
           = None"
    and "OrderBook_add_order b a w = (res, w')"
  shows "res = Inr () \<and> orders_h w' = orders_h w \<and>
         next_order w' = next_order w \<and> next_level w' = Suc (next_level w) \<and>
         (\<forall>b' sd. side_book sd (books_h w' b') =
            (if b' = b \<and> sd = (side (orders_h w a) = ''buy'')
             then side_book sd (books_h w b) @ [(normalize_price p, next_level w)]
             else side_book sd (books_h w b'))) \<and>
         (\<forall>l. pl_orders (levels_h w' l) =
            (if l = next_level w then [a] else pl_orders (levels_h w l)))"
  using assms unfolding OrderBook_add_order_def Let_def
  by (cases "side (orders_h w a) = ''buy''")
     (auto simp: side_book_def set_side_book_def PriceLevel_add_order_def PriceLevel_init_def
        update_absent)

lemma Inv_pos: "Inv {} w \<Longrightarrow> resting w x \<Longrightarrow> 0 < quantity (orders_h w x)"
  using InvD_level [of "{}" w] unfolding resting_def level_ok_def by blast

lemma Inv_allocated: "Inv X w \<Longrightarrow> resting w x \<Longrightarrow> x < next_order w"
  using InvD_level [of X w] unfolding resting_def level_ok_def by blast

lemma add_order_Inv:
  assumes i: "Inv {} w" and a: "\<not> resting w a" and al: "a < next_order w"
    and q: "0 < quantity (orders_h w a)"
    and cross: "\<And>p k' l. price (orders_h w a) = Some p \<Longrightarrow>
        stored w b (\<not> (side (orders_h w a) = ''buy'')) k' l \<Longrightarrow>
        (if side (orders_h w a) = ''buy'' then normalize_price p < k'
         else k' < normalize_price p)"
    and ad: "OrderBook_add_order b a w = (res, w')"
  shows "Inv {} w'"
proof (cases "price (orders_h w a)")
  case None
  from add_order_no_price [OF None ad] have
    e: "orders_h w' = orders_h w" "levels_h w' = levels_h w" "next_order w' = next_order w"
      "next_level w' = next_level w"
      "\<And>b' sd. side_book sd (books_h w' b') = side_book sd (books_h w b')"
    by simp_all
  show ?thesis
    by (rule Inv_frame [OF i e(2) e(5) e(4)]) (simp_all add: e Inv_pos [OF i])
next
  case (Some p)
  define sd where "sd = (side (orders_h w a) = ''buy'')"
  define k where "k = normalize_price p"
  show ?thesis
  proof (cases "map_of (side_book sd (books_h w b)) k")
    case (Some lv)
    from add_order_old_level [OF \<open>price (orders_h w a) = Some p\<close> Some [unfolded sd_def k_def] ad]
    have e: "orders_h w' = orders_h w" "next_order w' = next_order w"
      "next_level w' = next_level w"
      "\<And>b' sd. side_book sd (books_h w' b') = side_book sd (books_h w b')"
      "\<And>l. pl_orders (levels_h w' l) =
            (if l = lv then pl_orders (levels_h w l) @ [a] else pl_orders (levels_h w l))"
      by simp_all
    have st: "stored w b sd k lv"
      using map_of_SomeD [OF Some] unfolding stored_def .
    show ?thesis
    proof (rule Inv_insert [OF i a al q \<open>price (orders_h w a) = Some p\<close> k_def sd_def e(1,2),
          where lv = lv and b = b and ?L0.0 = "pl_orders (levels_h w lv)"])
      show "next_level w \<le> next_level w'" by (simp add: e)
      show "lv < next_level w'" using InvD_lt [OF i st] by (simp add: e)
      show "stored w b sd k lv \<and> pl_orders (levels_h w lv) = pl_orders (levels_h w lv) \<or>
            next_level w \<le> lv \<and> pl_orders (levels_h w lv) = []"
        using st by simp
      show "pl_orders (levels_h w' lv) = pl_orders (levels_h w lv) @ [a]" by (simp add: e)
      show "\<And>l. l \<noteq> lv \<Longrightarrow> pl_orders (levels_h w' l) = pl_orders (levels_h w l)"
        by (simp add: e)
      show "\<And>b' sd' k' l. stored w' b' sd' k' l \<longleftrightarrow>
               stored w b' sd' k' l \<or> (b' = b \<and> sd' = sd \<and> k' = k \<and> l = lv)"
        using st unfolding stored_def e by auto
      show "\<And>b' sd'. distinct (map fst (side_book sd' (books_h w' b')))"
        unfolding e by (rule InvD_keys [OF i])
      show "if sd then k < k' else k' < k" if "stored w b (\<not> sd) k' l" for k' l
        using cross [OF \<open>price (orders_h w a) = Some p\<close>, of k' l] that
        unfolding sd_def k_def by simp
    qed
  next
    case None
    from add_order_new_level [OF \<open>price (orders_h w a) = Some p\<close> None [unfolded sd_def k_def] ad]
    have e: "orders_h w' = orders_h w" "next_order w' = next_order w"
      "next_level w' = Suc (next_level w)"
      "\<And>b' sd'. side_book sd' (books_h w' b') =
            (if b' = b \<and> sd' = sd
             then side_book sd' (books_h w b) @ [(k, next_level w)]
             else side_book sd' (books_h w b'))"
      "\<And>l. pl_orders (levels_h w' l) =
            (if l = next_level w then [a] else pl_orders (levels_h w l))"
      unfolding sd_def k_def by simp_all
    have kn: "k \<notin> fst ` set (side_book sd (books_h w b))"
      using None by (simp add: map_of_eq_None_iff)
    show ?thesis
    proof (rule Inv_insert [OF i a al q \<open>price (orders_h w a) = Some p\<close> k_def sd_def e(1,2),
          where lv = "next_level w" and b = b and ?L0.0 = "[]"])
      show "next_level w \<le> next_level w'" by (simp add: e)
      show "next_level w < next_level w'" by (simp add: e)
      show "stored w b sd k (next_level w) \<and> [] = pl_orders (levels_h w (next_level w)) \<or>
            next_level w \<le> next_level w \<and> [] = []"
        by simp
      show "pl_orders (levels_h w' (next_level w)) = [] @ [a]" by (simp add: e)
      show "\<And>l. l \<noteq> next_level w \<Longrightarrow> pl_orders (levels_h w' l) = pl_orders (levels_h w l)"
        by (simp add: e)
      show "\<And>b' sd' k' l. stored w' b' sd' k' l \<longleftrightarrow>
               stored w b' sd' k' l \<or> (b' = b \<and> sd' = sd \<and> k' = k \<and> l = next_level w)"
        unfolding stored_def e by auto
      show "distinct (map fst (side_book sd' (books_h w' b')))" for b' sd'
        unfolding e using InvD_keys [OF i, of sd' b'] kn by auto
      show "if sd then k < k' else k' < k" if "stored w b (\<not> sd) k' l" for k' l
        using cross [OF \<open>price (orders_h w a) = Some p\<close>, of k' l] that
        unfolding sd_def k_def by simp
    qed
  qed
qed

section \<open>Reachable engine states\<close>

lemma Inv_empty_world: "Inv {} empty_world"
  unfolding Inv_def inv_levels_def inv_keys_def inv_loc_def inv_own_def inv_cross_def stored_def
  by (simp add: empty_world_def OrderBook_init_def side_book_def)

lemma get_order_book_stored:
  assumes "get_order_book smb w = (b, w0)"
  shows "stored w0 b' sd k lv \<longleftrightarrow>
           stored w b' sd k lv \<and> \<not> (order_books w smb = None \<and> b' = next_book w)"
  using assms
  by (auto simp: get_order_book_def stored_def side_book_def OrderBook_init_def
        split: option.splits if_splits)

lemma get_order_book_shrinks:
  assumes "get_order_book smb w = (b, w0)"
  shows "shrinks w w0"
  using assms
  by (auto simp: get_order_book_def shrinks_def OrderBook_init_def split: option.splits if_splits)

lemma get_order_book_Inv:
  assumes i: "Inv {} w" and g: "get_order_book smb w = (b, w0)"
  shows "Inv {} w0"
proof -
  note fr = get_order_book_frame [OF g]
  have "live w0"
    using Inv_live [OF i] unfolding live_def get_order_book_stored [OF g] fr by blast
  from Inv_shrinks [OF i get_order_book_shrinks [OF g] this] show ?thesis .
qed

lemma add_order_orders_h:
  assumes "OrderBook_add_order b a w = (res, w')"
  shows "orders_h w' = orders_h w"
proof (cases "price (orders_h w a)")
  case None
  from add_order_no_price [OF None assms] show ?thesis by simp
next
  case (Some p)
  show ?thesis
  proof (cases "map_of (side_book (side (orders_h w a) = ''buy'') (books_h w b)) (normalize_price p)")
    case None
    from add_order_new_level [OF Some None assms] show ?thesis by simp
  next
    case (Some lv)
    from add_order_old_level [OF \<open>price (orders_h w a) = Some p\<close> Some assms] show ?thesis by simp
  qed
qed

lemma execute_limit_order_Inv:
  assumes i: "Inv {} w" and a: "\<not> resting w a" and al: "a < next_order w"
    and e: "execute_limit_order b a ioc w = (res, w')"
  shows "Inv {} w'"
proof -
  obtain res1 w1 where m: "match_order b a False w = (res1, w1)"
    by (cases "match_order b a False w")
  note mi = match_order_Inv [OF i a m refl]
  have i1: "Inv {} w1" using mi by (rule conjunct1)
  show ?thesis
  proof (cases "\<exists>ts. res1 = Inr ts \<and> 0 < quantity (orders_h w1 a) \<and> \<not> ioc")
    case False
    with e m have "w' = w1"
      unfolding execute_limit_order_def by (auto split: sum.splits if_splits)
    with i1 show ?thesis by simp
  next
    case True
    then obtain ts where ts: "res1 = Inr ts" and q: "0 < quantity (orders_h w1 a)" and "\<not> ioc"
      by blast
    note c2 = mi [THEN conjunct2, THEN conjunct1, rule_format, OF ts q]
    have same: "w1 = w" using c2 by (rule conjunct1)
    have lim: "\<exists>lmt. price (orders_h w a) = Some lmt \<and>
             (if side (orders_h w a) = ''buy'' then normalize_price lmt < k
              else k < normalize_price lmt)"
      if "stored w b (\<not> (side (orders_h w a) = ''buy'')) k lv" for k lv
      using c2 [THEN conjunct2, rule_format, OF that] .
    obtain res2 w2 where ad: "OrderBook_add_order b a w = (res2, w2)"
      by (cases "OrderBook_add_order b a w")
    have "w' = w2"
      using e m ts q \<open>\<not> ioc\<close> ad same
      unfolding execute_limit_order_def by (auto split: sum.splits)
    moreover have "Inv {} w2"
    proof (rule add_order_Inv [OF i a al _ _ ad])
      show "0 < quantity (orders_h w a)" using q same by simp
    next
      fix p k' l
      assume "price (orders_h w a) = Some p"
        and "stored w b (\<not> (side (orders_h w a) = ''buy'')) k' l"
      with lim [of k' l]
      show "if side (orders_h w a) = ''buy'' then normalize_price p < k'
            else k' < normalize_price p"
        by auto
    qed
    ultimately show ?thesis by simp
  qed
qed

lemma process_order_Inv:
  assumes i: "Inv {} w" and a: "\<not> resting w a" and al: "a < next_order w"
    and p: "process_order a w = (res, w')"
  shows "Inv {} w'"
proof -
  obtain b w0 where g: "get_order_book (symbol (orders_h w a)) w = (b, w0)"
    by (cases "get_order_book (symbol (orders_h w a)) w")
  note fr = get_order_book_frame [OF g]
  note i0 = get_order_book_Inv [OF i g]
  have a0: "\<not> resting w0 a"
    using a shrinks_resting [OF get_order_book_shrinks [OF g]] by blast
  have al0: "a < next_order w0" using al fr by simp
  define ot where "ot = order_type (orders_h w0 a)"
  define cf where "cf = can_fully_fill b a w0"
  have p': "(res, w') =
      (if ot = ''market'' then match_order b a True w0
       else if ot = ''limit'' then execute_limit_order b a False w0
       else if ot = ''ioc'' then execute_limit_order b a True w0
       else if ot = ''fok'' then
         (case cf of Inl e \<Rightarrow> (Inl e, w0)
          | Inr True \<Rightarrow> execute_limit_order b a False w0
          | Inr False \<Rightarrow> (Inr [], w0))
       else (Inr [], w0))"
    using p g unfolding process_order_def execute_market_order_def ot_def cf_def by simp
  have "match_order b a True w0 = (res, w') \<or>
        (\<exists>ioc. execute_limit_order b a ioc w0 = (res, w')) \<or> w' = w0"
  proof (cases "ot = ''market''")
    case True
    with p' show ?thesis by simp
  next
    case nm: False
    show ?thesis
    proof (cases "ot = ''limit''")
      case True
      with p' nm have "execute_limit_order b a False w0 = (res, w')" by simp
      then show ?thesis by blast
    next
      case nl: False
      show ?thesis
      proof (cases "ot = ''ioc''")
        case True
        with p' nm nl have "execute_limit_order b a True w0 = (res, w')" by simp
        then show ?thesis by blast
      next
        case ni: False
        show ?thesis
        proof (cases "ot = ''fok''")
          case False
          with p' nm nl ni show ?thesis by simp
        next
          case True
          with p' nm nl ni have c: "(res, w') =
             (case cf of Inl e \<Rightarrow> (Inl e, w0)
              | Inr True \<Rightarrow> execute_limit_order b a False w0
              | Inr False \<Rightarrow> (Inr [], w0))"
            by simp
          show ?thesis
          proof (cases cf)
            case (Inl e)
            with c show ?thesis by simp
          next
            case (Inr y)
            with c show ?thesis by (cases y) (simp_all, metis)
          qed
        qed
      qed
    qed
  qed
  then show ?thesis
  proof (elim disjE exE)
    assume "match_order b a True w0 = (res, w')"
    from match_order_Inv [OF i0 a0 this refl] show ?thesis by (rule conjunct1)
  next
    fix ioc assume "execute_limit_order b a ioc w0 = (res, w')"
    from execute_limit_order_Inv [OF i0 a0 al0 this] show ?thesis .
  next
    assume "w' = w0"
    with i0 show ?thesis by simp
  qed
qed

lemma new_order_Inv:
  assumes i: "Inv {} w" and n: "new_order ord w = (a, w1)"
  shows "Inv {} w1 \<and> \<not> resting w1 a \<and> a < next_order w1 \<and> a = next_order w"
proof -
  have w1: "w1 = w\<lparr>orders_h := (orders_h w)(next_order w := ord), next_order := Suc (next_order w)\<rparr>"
    and a: "a = next_order w"
    using n by (auto simp: new_order_def)
  have nr: "\<not> resting w a"
    using Inv_allocated [OF i, of a] a by auto
  have i1: "Inv {} w1"
  proof (rule Inv_frame [OF i])
    show "levels_h w1 = levels_h w" by (simp add: w1)
    show "side_book sd (books_h w1 b') = side_book sd (books_h w b')" for b' sd by (simp add: w1)
    show "next_level w1 = next_level w" by (simp add: w1)
    show "next_order w \<le> next_order w1" by (simp add: w1)
    show "static (orders_h w1 x) = static (orders_h w x)" if "resting w x" for x
      using Inv_allocated [OF i that] by (simp add: w1)
    show "0 < quantity (orders_h w1 x)" if "resting w x" "x \<notin> {}" for x
      using Inv_allocated [OF i that(1)] Inv_pos [OF i that(1)] by (simp add: w1)
  qed
  have "resting w1 x = resting w x" for x
    unfolding resting_def stored_def by (simp add: w1)
  with nr i1 show ?thesis by (simp add: a w1)
qed

lemma submit_Inv:
  assumes "Inv {} w" and "submit ord w = (res, w')"
  shows "Inv {} w'"
proof -
  obtain a w1 where n: "new_order ord w = (a, w1)" by (cases "new_order ord w")
  with assms(2) have p: "process_order a w1 = (res, w')" by (simp add: submit_def)
  from new_order_Inv [OF assms(1) n] process_order_Inv [OF _ _ _ p] show ?thesis by blast
qed

lemma cancel_order_Inv:
  assumes "Inv {} w" and "cancel_order smb oid w = (res, w')"
  shows "Inv {} w'"
proof (cases "\<exists>b a. order_books w smb = Some b \<and> map_of (ob_orders (books_h w b)) oid = Some a")
  case False
  with assms(2) have "w' = w"
    unfolding cancel_order_def by (auto split: option.splits)
  with assms(1) show ?thesis by simp
next
  case True
  then obtain b a where "order_books w smb = Some b" "map_of (ob_orders (books_h w b)) oid = Some a"
    by blast
  with assms(2) obtain res1 where r: "OrderBook_remove_order b a w = (res1, w')"
    unfolding cancel_order_def by (auto split: prod.splits sum.splits)
  show ?thesis
    by (rule remove_order_Inv [where X = "{}", OF assms(1) _ _ r]) simp_all
qed

lemma reachable_Inv: "reachable w \<Longrightarrow> Inv {} w"
  by (induction rule: reachable.induct)
     (auto intro: Inv_empty_world submit_Inv cancel_order_Inv)

lemma best_bid_stored:
  assumes "get_best_bid (books_h w b) = Some k"
  shows "\<exists>lv. stored w b True k lv"
proof -
  from assms have ne: "bids (books_h w b) \<noteq> []"
    and k: "k = Max (set (map fst (bids (books_h w b))))"
    by (auto simp: get_best_bid_def split: if_splits)
  from ne have "Max (set (map fst (bids (books_h w b)))) \<in> set (map fst (bids (books_h w b)))"
    by (intro Max_in) simp_all
  then show ?thesis
    unfolding k stored_def side_book_def by auto
qed

lemma best_ask_stored:
  assumes "get_best_ask (books_h w b) = Some k"
  shows "\<exists>lv. stored w b False k lv"
proof -
  from assms have ne: "asks (books_h w b) \<noteq> []"
    and k: "k = Min (set (map fst (asks (books_h w b))))"
    by (auto simp: get_best_ask_def split: if_splits)
  from ne have "Min (set (map fst (asks (books_h w b)))) \<in> set (map fst (asks (books_h w b)))"
    by (intro Min_in) simp_all
  then show ?thesis
    unfolding k stored_def side_book_def by auto
qed

text \<open>
  Claim C3: in every engine state reachable by a sequence of submitted orders and
  cancellations, whenever a book has a best bid and a best ask, the best bid is strictly
  below the best ask.
\<close>

theorem reachable_not_crossed:
  assumes "reachable w"
    and "bid (get_bbo smb w) = Some bb" and "ask (get_bbo smb w) = Some ba"
  shows "bb < ba"
proof -
  from assms(2) obtain b where b: "order_books w smb = Some b"
    by (cases "order_books w smb") (auto simp: get_bbo_def)
  with assms(2,3) have "get_best_bid (books_h w b) = Some bb" "get_best_ask (books_h w b) = Some ba"
    by (simp_all add: get_bbo_def)
  then obtain lb la where "stored w b True bb lb" "stored w b False ba la"
    using best_bid_stored best_ask_stored by blast
  with InvD_cross [OF reachable_Inv [OF assms(1)]] show ?thesis by blast
qed

theorem reachable_not_crossed_witness:
  "reachable world_bid_and_ask \<and>
   bid (get_bbo ''BTC-USDT'' world_bid_and_ask) = Some 99 \<and>
   ask (get_bbo ''BTC-USDT'' world_bid_and_ask) = Some 100 \<and> (99 :: rat) < 100"
proof -
  have r1: "reachable world_one_ask"
    unfolding world_one_ask_def
    by (rule reachable_submit [OF reachable_init,
          of "mk_order ''s1'' ''limit'' ''sell'' 2 (Some 100)"
             "fst (submit (mk_order ''s1'' ''limit'' ''sell'' 2 (Some 100)) empty_world)"]) simp
  have r: "reachable world_bid_and_ask"
    unfolding world_bid_and_ask_def
    by (rule reachable_submit [OF r1,
          of "mk_order ''b1'' ''limit'' ''buy'' 1 (Some 99)"
             "fst (submit (mk_order ''b1'' ''limit'' ''buy'' 1 (Some 99)) world_one_ask)"]) simp
  have b: "bid (get_bbo ''BTC-USDT'' world_bid_and_ask) = Some 99"
    by code_simp
  have a: "ask (get_bbo ''BTC-USDT'' world_bid_and_ask) = Some 100"
    by code_simp
  show ?thesis
    using reachable_not_crossed [OF r b a] r b a by simp
qed

section \<open>Price-time priority\<close>

text \<open>Fills never take a quantity below zero.\<close>

lemma fill_resting_nonneg:
  assumes f: "fill_resting b a prc r trades w = (res, w')" and ar: "a \<noteq> r"
    and x: "0 \<le> quantity (orders_h w x)"
  shows "0 \<le> quantity (orders_h w' x)"
proof -
  from fill_resting_fill [OF f] obtain t where
    tq: "t_quantity t = min (quantity (orders_h w a)) (quantity (orders_h w r))" and
    ac: "accounts w w' a [(r, t)]"
    by blast
  have "quantity (orders_h w' x) =
      quantity (orders_h w x) - (if r = x then t_quantity t else 0) - (if x = a then t_quantity t else 0)"
    using ac unfolding accounts_def filled_def taken_def by simp
  with tq ar x show ?thesis by (auto split: if_splits)
qed

lemma match_level_nonneg:
  assumes "match_level b a prc rs trades w = (res, w')" and "a \<notin> set rs"
    and "0 \<le> quantity (orders_h w x)"
  shows "0 \<le> quantity (orders_h w' x)"
  using assms
proof (induction rs arbitrary: trades w)
  case Nil
  then show ?case by simp
next
  case (Cons r rs)
  show ?case
  proof (cases "quantity (orders_h w a) \<le> 0")
    case True
    with Cons.prems show ?thesis by simp
  next
    case False
    obtain res1 w1 where f: "fill_resting b a prc r trades w = (res1, w1)"
      by (cases "fill_resting b a prc r trades w")
    have ar: "a \<noteq> r" using Cons.prems(2) by auto
    note x1 = fill_resting_nonneg [OF f ar Cons.prems(3)]
    show ?thesis
    proof (cases res1)
      case (Inl e)
      with Cons.prems(1) False f have "w' = w1" by simp
      with x1 show ?thesis by simp
    next
      case (Inr trades1)
      with Cons.prems(1) False f have m: "match_level b a prc rs trades1 w1 = (res, w')"
        by simp
      from Cons.IH [OF m _ x1] Cons.prems(2) show ?thesis by simp
    qed
  qed
qed

lemma visit_level_nonneg:
  assumes v: "visit_level b a is_buy prc trades w = (res, w')" and a: "\<not> resting w a"
    and x: "0 \<le> quantity (orders_h w x)"
  shows "0 \<le> quantity (orders_h w' x)"
proof (cases "map_of (opposite_book is_buy (books_h w b)) prc")
  case None
  with v have "w' = w" by (auto simp: visit_level_def)
  with x show ?thesis by simp
next
  case (Some lv)
  obtain res1 w1 where m: "match_level b a prc (pl_orders (levels_h w lv)) trades w = (res1, w1)"
    by (cases "match_level b a prc (pl_orders (levels_h w lv)) trades w")
  have "a \<notin> set (pl_orders (levels_h w lv))"
    using a restingI [OF stored_opposite [OF Some]] by blast
  note x1 = match_level_nonneg [OF m this x]
  let ?w2 = "set_side_book (\<not> is_buy) b (AList.delete prc (opposite_book is_buy (books_h w1 b))) w1"
  from v Some m have "w' = w1 \<or> w' = ?w2"
    unfolding visit_level_def by (auto split: sum.splits if_splits option.splits)
  then have "orders_h w' = orders_h w1"
    by (auto simp: set_side_book_def)
  with x1 show ?thesis by simp
qed

lemma match_levels_nonneg:
  assumes "match_levels b a market is_buy ps trades w = (res, w')" and "\<not> resting w a"
    and "0 \<le> quantity (orders_h w x)"
  shows "0 \<le> quantity (orders_h w' x)"
  using assms
proof (induction ps arbitrary: trades w)
  case Nil
  then show ?case by simp
next
  case (Cons prc ps)
  show ?case
  proof (cases "price_stop market is_buy prc (orders_h w a) = Inr False")
    case False
    with Cons.prems(1) have "w' = w"
      by (auto split: sum.splits bool.splits)
    with Cons.prems(3) show ?thesis by simp
  next
    case True
    obtain res1 w1 where v: "visit_level b a is_buy prc trades w = (res1, w1)"
      by (cases "visit_level b a is_buy prc trades w")
    note x1 = visit_level_nonneg [OF v Cons.prems(2,3)]
    have s1: "shrinks w w1" using visit_level_fills [OF v] by (rule conjunct1)
    have a1: "\<not> resting w1 a" using Cons.prems(2) shrinks_resting [OF s1] by blast
    show ?thesis
    proof (cases "\<exists>trades1. res1 = Inr trades1 \<and> \<not> quantity (orders_h w1 a) \<le> 0")
      case False
      with Cons.prems(1) True v have "w' = w1"
        by (auto split: sum.splits)
      with x1 show ?thesis by simp
    next
      case c: True
      then obtain trades1 where "res1 = Inr trades1" "\<not> quantity (orders_h w1 a) \<le> 0"
        by blast
      with Cons.prems(1) True v have m: "match_levels b a market is_buy ps trades1 w1 = (res, w')"
        by simp
      from Cons.IH [OF m a1 x1] show ?thesis .
    qed
  qed
qed

lemma match_order_nonneg:
  assumes "match_order b a market w = (res, w')" and "\<not> resting w a"
    and "0 \<le> quantity (orders_h w x)"
  shows "0 \<le> quantity (orders_h w' x)"
proof -
  from assms(1) obtain ps where
    "match_levels b a market (side (orders_h w a) = ''buy'') ps [] w = (res, w')"
    unfolding match_order_def Let_def by auto
  from match_levels_nonneg [OF this assms(2,3)] show ?thesis .
qed

text \<open>The quantities after \<open>process_order\<close> are those after its matching pass, if it has one.\<close>

lemma execute_limit_order_match:
  assumes "execute_limit_order b a ioc w = (res, w')"
  shows "\<exists>res1 wm. match_order b a False w = (res1, wm) \<and> orders_h w' = orders_h wm"
proof -
  obtain res1 w1 where m: "match_order b a False w = (res1, w1)"
    by (cases "match_order b a False w")
  obtain res2 w2 where ad: "OrderBook_add_order b a w1 = (res2, w2)"
    by (cases "OrderBook_add_order b a w1")
  from assms m ad have "w' = w1 \<or> w' = w2"
    unfolding execute_limit_order_def by (auto split: sum.splits if_splits)
  with add_order_orders_h [OF ad] m show ?thesis by auto
qed

lemma process_order_match:
  assumes p: "process_order a w = (res, w')"
    and g: "get_order_book (symbol (orders_h w a)) w = (b, w0)"
  shows "orders_h w' = orders_h w0 \<or>
         (\<exists>market res1 wm. match_order b a market w0 = (res1, wm) \<and> orders_h w' = orders_h wm)"
proof -
  define ot where "ot = order_type (orders_h w0 a)"
  define cf where "cf = can_fully_fill b a w0"
  have p': "(res, w') =
      (if ot = ''market'' then match_order b a True w0
       else if ot = ''limit'' then execute_limit_order b a False w0
       else if ot = ''ioc'' then execute_limit_order b a True w0
       else if ot = ''fok'' then
         (case cf of Inl e \<Rightarrow> (Inl e, w0)
          | Inr True \<Rightarrow> execute_limit_order b a False w0
          | Inr False \<Rightarrow> (Inr [], w0))
       else (Inr [], w0))"
    using p g unfolding process_order_def execute_market_order_def ot_def cf_def by simp
  have "match_order b a True w0 = (res, w') \<or>
        (\<exists>ioc. execute_limit_order b a ioc w0 = (res, w')) \<or> w' = w0"
  proof (cases "ot = ''market''")
    case True
    with p' show ?thesis by simp
  next
    case nm: False
    show ?thesis
    proof (cases "ot = ''limit''")
      case True
      with p' nm have "execute_limit_order b a False w0 = (res, w')" by simp
      then show ?thesis by blast
    next
      case nl: False
      show ?thesis
      proof (cases "ot = ''ioc''")
        case True
        with p' nm nl have "execute_limit_order b a True w0 = (res, w')" by simp
        then show ?thesis by blast
      next
        case ni: False
        show ?thesis
        proof (cases "ot = ''fok''")
          case False
          with p' nm nl ni show ?thesis by simp
        next
          case True
          with p' nm nl ni have c: "(res, w') =
             (case cf of Inl e \<Rightarrow> (Inl e, w0)
              | Inr True \<Rightarrow> execute_limit_order b a False w0
              | Inr False \<Rightarrow> (Inr [], w0))"
            by simp
          show ?thesis
          proof (cases cf)
            case (Inl e)
            with c show ?thesis by simp
          next
            case (Inr y)
            with c show ?thesis by (cases y) (simp_all, metis)
          qed
        qed
      qed
    qed
  qed
  then show ?thesis
  proof (elim disjE exE)
    assume "match_order b a True w0 = (res, w')"
    then show ?thesis by blast
  next
    fix ioc assume "execute_limit_order b a ioc w0 = (res, w')"
    from execute_limit_order_match [OF this] show ?thesis by blast
  next
    assume "w' = w0"
    then show ?thesis by simp
  qed
qed

text \<open>
  Price-time priority of one matching pass on a well-formed state, for resting orders of
  any book and side.
\<close>

lemma match_order_priority:
  assumes i: "Inv {} w" and a: "\<not> resting w a"
    and m: "match_order b0 a market w = (res, w')"
    and s1: "stored w b sd k1 lv1" and r1: "r1 \<in> set (pl_orders (levels_h w lv1))"
    and s2: "stored w b sd k2 lv2" and r2: "r2 \<in> set (pl_orders (levels_h w lv2))"
    and pr: "lv1 = lv2 \<and> before r1 r2 (pl_orders (levels_h w lv1)) \<or>
             (if sd then k2 < k1 else k1 < k2)"
    and ch: "quantity (orders_h w' r2) \<noteq> quantity (orders_h w r2)"
  shows "quantity (orders_h w' r1) = 0"
proof -
  define is_buy where "is_buy = (side (orders_h w a) = ''buy'')"
  note mi = match_order_Inv [OF i a m is_buy_def]
  note frame = mi [THEN conjunct2, THEN conjunct2, THEN conjunct1, rule_format]
  note prio = mi [THEN conjunct2, THEN conjunct2, THEN conjunct2, rule_format]
  have r2a: "r2 \<noteq> a" using a restingI [OF s2 r2] by blast
  have "\<exists>k lv. stored w b0 (\<not> is_buy) k lv \<and> r2 \<in> set (pl_orders (levels_h w lv))"
  proof (rule ccontr)
    assume "\<not> ?thesis"
    then have "orders_h w' r2 = orders_h w r2"
      using frame [OF r2a] by blast
    with ch show False by simp
  qed
  then obtain k lv where st: "stored w b0 (\<not> is_buy) k lv"
    and rl: "r2 \<in> set (pl_orders (levels_h w lv))"
    by blast
  have lv: "lv = lv2" using InvD_own [OF i st s2 rl r2] .
  have loc: "b0 = b \<and> (\<not> is_buy) = sd \<and> k = k2"
    using InvD_loc [OF i st] s2 unfolding lv by blast
  have s1': "stored w b0 (\<not> is_buy) k1 lv1" and s2': "stored w b0 (\<not> is_buy) k2 lv2"
    using s1 s2 loc by auto
  have pr': "lv1 = lv2 \<and> before r1 r2 (pl_orders (levels_h w lv1)) \<or>
             (if is_buy then k1 < k2 else k2 < k1)"
    using pr loc by (auto split: if_splits)
  have le: "quantity (orders_h w' r1) \<le> 0"
    using prio [OF s1' s2' r1 r2 pr' ch] .
  have "0 \<le> quantity (orders_h w r1)"
    using Inv_pos [OF i restingI [OF s1 r1]] by simp
  from match_order_nonneg [OF m a this] le show ?thesis by simp
qed

text \<open>
  Claim C5: when a new order is processed in a reachable state, resting orders are
  consumed in price-time priority. For two orders resting on the same side of a book,
  where the first is earlier in the list of the same price level (the list is in order of
  arrival: \<open>PriceLevel.add_order\<close> appends) or rests at a strictly better price (a higher
  bid, a lower ask): if the second has lost any quantity by the end of the call, the
  first has been consumed completely.
\<close>

theorem price_time_priority:
  assumes "reachable w" and "submit ord w = (res, w')"
    and "stored w b sd k1 lv1" and "r1 \<in> set (pl_orders (levels_h w lv1))"
    and "stored w b sd k2 lv2" and "r2 \<in> set (pl_orders (levels_h w lv2))"
    and "lv1 = lv2 \<and> before r1 r2 (pl_orders (levels_h w lv1)) \<or>
         (if sd then k2 < k1 else k1 < k2)"
    and "quantity (orders_h w' r2) \<noteq> quantity (orders_h w r2)"
  shows "quantity (orders_h w' r1) = 0"
proof -
  note i = reachable_Inv [OF assms(1)]
  obtain a w1 where n: "new_order ord w = (a, w1)" by (cases "new_order ord w")
  with assms(2) have p: "process_order a w1 = (res, w')" by (simp add: submit_def)
  from new_order_Inv [OF i n] have i1: "Inv {} w1" and a1: "\<not> resting w1 a"
    and a: "a = next_order w"
    by blast+
  have w1: "w1 = w\<lparr>orders_h := (orders_h w)(next_order w := ord), next_order := Suc (next_order w)\<rparr>"
    using n by (auto simp: new_order_def)
  have ne1: "r1 \<noteq> a" and ne2: "r2 \<noteq> a"
    using Inv_allocated [OF i restingI [OF assms(3,4)]]
      Inv_allocated [OF i restingI [OF assms(5,6)]] a by auto
  obtain b0 w0 where g: "get_order_book (symbol (orders_h w1 a)) w1 = (b0, w0)"
    by (cases "get_order_book (symbol (orders_h w1 a)) w1")
  note fr = get_order_book_frame [OF g]
  have i0: "Inv {} w0" using get_order_book_Inv [OF i1 g] .
  have a0: "\<not> resting w0 a"
    using a1 shrinks_resting [OF get_order_book_shrinks [OF g]] by blast
  have o1: "orders_h w0 r1 = orders_h w r1" and o2: "orders_h w0 r2 = orders_h w r2"
    using ne1 ne2 a unfolding fr(1) w1 by simp_all
  have lh: "levels_h w0 = levels_h w" unfolding fr(3) w1 by simp
  have st1: "stored w1 b' sd' k' lv' = stored w b' sd' k' lv'" for b' sd' k' lv'
    unfolding stored_def w1 by simp
  from process_order_match [OF p g] show ?thesis
  proof
    assume "orders_h w' = orders_h w0"
    with assms(8) o2 show ?thesis by simp
  next
    assume "\<exists>market res1 wm. match_order b0 a market w0 = (res1, wm) \<and> orders_h w' = orders_h wm"
    then obtain market res1 wm where m: "match_order b0 a market w0 = (res1, wm)"
      and ow: "orders_h w' = orders_h wm"
      by blast
    have ch: "quantity (orders_h wm r2) \<noteq> quantity (orders_h w0 r2)"
      using assms(8) ow o2 by simp
    show ?thesis
    proof (cases "order_books w1 (symbol (orders_h w1 a)) = None \<and> b = next_book w1")
      case False
      then have st0: "stored w0 b sd k' lv' = stored w b sd k' lv'" for k' lv'
        unfolding get_order_book_stored [OF g] st1 by simp
      have "quantity (orders_h wm r1) = 0"
        by (rule match_order_priority [OF i0 a0 m, of b sd k1 lv1 r1 k2 lv2 r2])
           (use assms(3-7) ch in \<open>simp_all add: st0 lh\<close>)
      with ow show ?thesis by simp
    next
      case True
      define is_buy where "is_buy = (side (orders_h w0 a) = ''buy'')"
      note mi = match_order_Inv [OF i0 a0 m is_buy_def]
      note frame = mi [THEN conjunct2, THEN conjunct2, THEN conjunct1, rule_format]
      from True have b0: "b0 = next_book w1" using g by (simp add: get_order_book_def)
      have "\<not> stored w0 b0 (\<not> is_buy) k lv" for k lv
        unfolding get_order_book_stored [OF g] using True b0 by simp
      then have "orders_h wm r2 = orders_h w0 r2"
        using frame [OF ne2] by blast
      with ch show ?thesis by simp
    qed
  qed
qed

theorem price_time_priority_witness:
  "reachable world_two_asks \<and>
   pl_orders (levels_h world_two_asks 0) = [0, 1] \<and>
   stored world_two_asks 0 False 100 0 \<and>
   before 0 1 (pl_orders (levels_h world_two_asks 0)) \<and>
   quantity (orders_h world_two_asks 0) = 2 \<and>
   quantity (orders_h world_two_asks 1) = 3 \<and>
   quantity (orders_h (snd run_buy_three) 1) = 2 \<and>
   quantity (orders_h (snd run_buy_three) 0) = 0"
proof -
  have r1: "reachable (snd (submit (mk_order ''s1'' ''limit'' ''sell'' 2 (Some 100)) empty_world))"
    by (rule reachable_submit [OF reachable_init,
          of "mk_order ''s1'' ''limit'' ''sell'' 2 (Some 100)"
             "fst (submit (mk_order ''s1'' ''limit'' ''sell'' 2 (Some 100)) empty_world)"]) simp
  have r: "reachable world_two_asks"
    unfolding world_two_asks_def
    by (rule reachable_submit [OF r1,
          of "mk_order ''s2'' ''limit'' ''sell'' 3 (Some 100)"
             "fst (submit (mk_order ''s2'' ''limit'' ''sell'' 3 (Some 100))
                (snd (submit (mk_order ''s1'' ''limit'' ''sell'' 2 (Some 100)) empty_world)))"]) simp
  have run: "submit (mk_order ''b1'' ''limit'' ''buy'' 3 (Some 100)) world_two_asks =
               (fst run_buy_three, snd run_buy_three)"
    by (simp add: run_buy_three_def)
  have l: "pl_orders (levels_h world_two_asks 0) = [0, 1]"
    by code_simp
  have st: "stored world_two_asks 0 False 100 0"
    by code_simp
  have m0: "(0::nat) \<in> set (pl_orders (levels_h world_two_asks 0))"
    and m1: "(1::nat) \<in> set (pl_orders (levels_h world_two_asks 0))"
    and bf: "before 0 1 (pl_orders (levels_h world_two_asks 0))"
    unfolding l by simp_all
  have q0: "quantity (orders_h world_two_asks 0) = 2"
    by code_simp
  have q1: "quantity (orders_h world_two_asks 1) = 3"
    by code_simp
  have q1': "quantity (orders_h (snd run_buy_three) 1) = 2"
    by code_simp
  have ch: "quantity (orders_h (snd run_buy_three) 1) \<noteq> quantity (orders_h world_two_asks 1)"
    unfolding q1 q1' by simp
  have "quantity (orders_h (snd run_buy_three) 0) = 0"
    by (rule price_time_priority [OF r run st m0 st m1 _ ch]) (use bf in simp)
  with r l st bf q0 q1 q1' show ?thesis by simp
qed

end
